theory Spec2Isabelle
  imports Main "HOL-Library.Word"
begin

unbundle bit_operations_syntax

section \<open>Data model of the reconciler's update queues and work units\<close>

text \<open>
  Objects of the JavaScript heap are addressed by references; every kind of object has a
  store of its own, a function from references to the fields the code reads and writes.
  A field that holds \<open>null\<close> is \<open>None\<close>.
\<close>

type_synonym uref = nat
type_synonym qref = nat
type_synonym fref = nat
type_synonym rootref = nat
type_synonym Lanes = "32 word"
type_synonym Flags = "32 word"
type_synonym WorkTag = nat

text \<open>An update record; \<open>nxt\<close> is its \<open>next\<close> field.\<close>

record Update =
  nxt :: "uref option"

text \<open>A hook or class update queue: both have the two tail pointers and nothing else
  that this module touches.\<close>

record Queue =
  pending :: "uref option"
  interleaved :: "uref option"

record Fiber =
  tag :: WorkTag
  stateNode :: rootref
  return :: "fref option"
  alternate :: "fref option"
  flags :: Flags
  lanes :: Lanes
  childLanes :: Lanes

text \<open>
  The module imports its constants from \<open>ReactWorkTags\<close> and \<open>ReactFiberFlags\<close> and
  reads the build flag \<open>__DEV__\<close>; none of them is defined in the sources at hand, so
  they are parameters of the model.
\<close>

record config =
  DEV :: bool
  NoFlags :: Flags
  Placement :: Flags
  Hydrating :: Flags
  HostRoot :: WorkTag

text \<open>
  The state: the three object stores, the module variable \<open>concurrentQueues\<close>
  (\<open>None\<close> is \<open>null\<close>), and the diagnostic sink, which lists the fibers handed to
  \<open>warnAboutUpdateOnNotYetMountedFiberInDEV\<close>, most recent last.
\<close>

record state =
  updates :: "uref \<Rightarrow> Update"
  queues :: "qref \<Rightarrow> Queue"
  fibers :: "fref \<Rightarrow> Fiber"
  concurrentQueues :: "qref list option"
  warnings :: "fref list"

text \<open>Modelled from the spec: \<open>mergeLanes\<close> of \<open>ReactFiberLane.old\<close>, which is not among
  the sources; the spec gives \<open>merge(a,b) = a|b\<close>.\<close>

definition mergeLanes :: "Lanes \<Rightarrow> Lanes \<Rightarrow> Lanes" where
  "mergeLanes a b = a OR b"

subsection \<open>Field writes\<close>

definition set_next :: "uref \<Rightarrow> uref option \<Rightarrow> state \<Rightarrow> state" where
  "set_next u v s = s\<lparr>updates := (updates s)(u := (updates s u)\<lparr>nxt := v\<rparr>)\<rparr>"

definition set_pending :: "qref \<Rightarrow> uref option \<Rightarrow> state \<Rightarrow> state" where
  "set_pending q v s = s\<lparr>queues := (queues s)(q := (queues s q)\<lparr>pending := v\<rparr>)\<rparr>"

definition set_interleaved :: "qref \<Rightarrow> uref option \<Rightarrow> state \<Rightarrow> state" where
  "set_interleaved q v s = s\<lparr>queues := (queues s)(q := (queues s q)\<lparr>interleaved := v\<rparr>)\<rparr>"

definition set_lanes :: "fref \<Rightarrow> Lanes \<Rightarrow> state \<Rightarrow> state" where
  "set_lanes f v s = s\<lparr>fibers := (fibers s)(f := (fibers s f)\<lparr>lanes := v\<rparr>)\<rparr>"

definition set_childLanes :: "fref \<Rightarrow> Lanes \<Rightarrow> state \<Rightarrow> state" where
  "set_childLanes f v s = s\<lparr>fibers := (fibers s)(f := (fibers s f)\<lparr>childLanes := v\<rparr>)\<rparr>"

text \<open>Modelled from the spec: \<open>warnAboutUpdateOnNotYetMountedFiberInDEV\<close> of
  \<open>ReactFiberWorkLoop.old\<close>, which is not among the sources. The spec has the check emit a
  non-fatal warning to a diagnostic sink, naming the original source node.\<close>

definition warnAboutUpdateOnNotYetMountedFiberInDEV :: "fref \<Rightarrow> state \<Rightarrow> state" where
  "warnAboutUpdateOnNotYetMountedFiberInDEV f s = s\<lparr>warnings := warnings s @ [f]\<rparr>"

section \<open>ReactFiberConcurrentUpdates\<close>

definition pushConcurrentUpdateQueue :: "qref \<Rightarrow> state \<Rightarrow> state" where
  "pushConcurrentUpdateQueue queue s =
     (case concurrentQueues s of
        None \<Rightarrow> s\<lparr>concurrentQueues := Some [queue]\<rparr>
      | Some qs \<Rightarrow> s\<lparr>concurrentQueues := Some (qs @ [queue])\<rparr>)"

text \<open>The body of the \<open>for\<close> loop of \<open>finishQueueingConcurrentUpdates\<close>, for one entry
  \<open>queue\<close> of the array.\<close>

definition transferInterleaved :: "qref \<Rightarrow> state \<Rightarrow> state" where
  "transferInterleaved queue s =
     (case interleaved (queues s queue) of
        None \<Rightarrow> s
      | Some lastInterleavedUpdate \<Rightarrow>
          let s1 = set_interleaved queue None s;
              firstInterleavedUpdate = nxt (updates s1 lastInterleavedUpdate);
              s2 = (case pending (queues s1 queue) of
                      None \<Rightarrow> s1
                    | Some lastPendingUpdate \<Rightarrow>
                        let firstPendingUpdate = nxt (updates s1 lastPendingUpdate);
                            s1a = set_next lastPendingUpdate firstInterleavedUpdate s1
                        in set_next lastInterleavedUpdate firstPendingUpdate s1a)
          in set_pending queue (Some lastInterleavedUpdate) s2)"

text \<open>The loop itself: the body never writes the array, so the loop visits its entries
  in order.\<close>

fun transferAll :: "qref list \<Rightarrow> state \<Rightarrow> state" where
  "transferAll [] s = s"
| "transferAll (queue # rest) s = transferAll rest (transferInterleaved queue s)"

definition finishQueueingConcurrentUpdates :: "state \<Rightarrow> state" where
  "finishQueueingConcurrentUpdates s =
     (case concurrentQueues s of
        None \<Rightarrow> s
      | Some qs \<Rightarrow> (transferAll qs s)\<lparr>concurrentQueues := None\<rparr>)"

text \<open>The body of the \<open>while\<close> loop of \<open>markUpdateLaneFromFiberToRoot\<close>, up to the
  assignments to \<open>node\<close> and \<open>parent\<close>, for the non-null \<open>parent\<close>.\<close>

definition markParent :: "config \<Rightarrow> fref \<Rightarrow> Lanes \<Rightarrow> fref \<Rightarrow> state \<Rightarrow> state" where
  "markParent cfg sourceFiber lane parent s =
     (let s1 = set_childLanes parent (mergeLanes (childLanes (fibers s parent)) lane) s
      in case alternate (fibers s1 parent) of
           Some a \<Rightarrow> set_childLanes a (mergeLanes (childLanes (fibers s1 a)) lane) s1
         | None \<Rightarrow>
             if DEV cfg \<and> flags (fibers s1 parent) AND (Placement cfg OR Hydrating cfg) \<noteq> NoFlags cfg
             then warnAboutUpdateOnNotYetMountedFiberInDEV sourceFiber s1
             else s1)"

text \<open>The loop, with its variables \<open>node\<close> and \<open>parent\<close>. It returns the last \<open>node\<close>;
  on a cyclic \<open>return\<close> chain it does not return, which is the value \<open>None\<close>.\<close>

partial_function (option) walkParentPath ::
  "config \<Rightarrow> fref \<Rightarrow> Lanes \<Rightarrow> fref \<Rightarrow> fref option \<Rightarrow> state \<Rightarrow> (fref \<times> state) option" where
  "walkParentPath cfg sourceFiber lane node parent s =
     (case parent of
        None \<Rightarrow> Some (node, s)
      | Some p \<Rightarrow>
          let s1 = markParent cfg sourceFiber lane p s
          in walkParentPath cfg sourceFiber lane p (return (fibers s1 p)) s1)"

text \<open>The statements of \<open>markUpdateLaneFromFiberToRoot\<close> before the loop: the lanes
  of the source fiber and of its alternate, and the diagnostic.\<close>

definition markSourceFiber :: "config \<Rightarrow> fref \<Rightarrow> Lanes \<Rightarrow> state \<Rightarrow> state" where
  "markSourceFiber cfg sourceFiber lane s =
     (let s1 = set_lanes sourceFiber (mergeLanes (lanes (fibers s sourceFiber)) lane) s;
          alt = alternate (fibers s1 sourceFiber);
          s2 = (case alt of
                  Some a \<Rightarrow> set_lanes a (mergeLanes (lanes (fibers s1 a)) lane) s1
                | None \<Rightarrow> s1)
      in if DEV cfg \<and> alt = None \<and>
            flags (fibers s2 sourceFiber) AND (Placement cfg OR Hydrating cfg) \<noteq> NoFlags cfg
         then warnAboutUpdateOnNotYetMountedFiberInDEV sourceFiber s2
         else s2)"

text \<open>The result is \<open>None\<close> when the loop does not return; otherwise the returned
  value, \<open>Some root\<close> or \<open>None\<close> for \<open>null\<close>, and the state. The \<open>stateNode\<close> of a host
  root is a \<open>FiberRoot\<close>, never \<open>null\<close>.\<close>

definition markUpdateLaneFromFiberToRoot ::
  "config \<Rightarrow> fref \<Rightarrow> Lanes \<Rightarrow> state \<Rightarrow> (rootref option \<times> state) option" where
  "markUpdateLaneFromFiberToRoot cfg sourceFiber lane s =
     (let s3 = markSourceFiber cfg sourceFiber lane s
      in case walkParentPath cfg sourceFiber lane sourceFiber (return (fibers s3 sourceFiber)) s3 of
           None \<Rightarrow> None
         | Some (node, s4) \<Rightarrow>
             if tag (fibers s4 node) = HostRoot cfg
             then Some (Some (stateNode (fibers s4 node)), s4)
             else Some (None, s4))"

definition enqueueConcurrentHookUpdate ::
  "config \<Rightarrow> fref \<Rightarrow> qref \<Rightarrow> uref \<Rightarrow> Lanes \<Rightarrow> state \<Rightarrow> (rootref option \<times> state) option" where
  "enqueueConcurrentHookUpdate cfg fiber queue update lane s =
     (let s1 = (case interleaved (queues s queue) of
                  None \<Rightarrow> pushConcurrentUpdateQueue queue (set_next update (Some update) s)
                | Some i \<Rightarrow>
                    let s0 = set_next update (nxt (updates s i)) s
                    in set_next i (Some update) s0);
          s2 = set_interleaved queue (Some update) s1
      in markUpdateLaneFromFiberToRoot cfg fiber lane s2)"

definition enqueueConcurrentHookUpdateAndEagerlyBailout ::
  "fref \<Rightarrow> qref \<Rightarrow> uref \<Rightarrow> Lanes \<Rightarrow> state \<Rightarrow> state" where
  "enqueueConcurrentHookUpdateAndEagerlyBailout fiber queue update lane s =
     (let s1 = (case interleaved (queues s queue) of
                  None \<Rightarrow> pushConcurrentUpdateQueue queue (set_next update (Some update) s)
                | Some i \<Rightarrow>
                    let s0 = set_next update (nxt (updates s i)) s
                    in set_next i (Some update) s0)
      in set_interleaved queue (Some update) s1)"

definition enqueueConcurrentClassUpdate ::
  "config \<Rightarrow> fref \<Rightarrow> qref \<Rightarrow> uref \<Rightarrow> Lanes \<Rightarrow> state \<Rightarrow> (rootref option \<times> state) option" where
  "enqueueConcurrentClassUpdate cfg fiber queue update lane s =
     (let s1 = (case interleaved (queues s queue) of
                  None \<Rightarrow> pushConcurrentUpdateQueue queue (set_next update (Some update) s)
                | Some i \<Rightarrow>
                    let s0 = set_next update (nxt (updates s i)) s
                    in set_next i (Some update) s0);
          s2 = set_interleaved queue (Some update) s1
      in markUpdateLaneFromFiberToRoot cfg fiber lane s2)"

definition enqueueConcurrentRenderForLane ::
  "config \<Rightarrow> fref \<Rightarrow> Lanes \<Rightarrow> state \<Rightarrow> (rootref option \<times> state) option" where
  "enqueueConcurrentRenderForLane cfg fiber lane s = markUpdateLaneFromFiberToRoot cfg fiber lane s"

section \<open>Lists and paths in the stores\<close>

text \<open>
  \<open>chain h xs\<close>: in the store \<open>h\<close> every record of \<open>xs\<close> but the last has the next
  record of \<open>xs\<close> as its \<open>next\<close>. \<open>circular h t xs\<close>: the tail pointer \<open>t\<close> points to a
  circular list whose records, read from the head \<open>t.next\<close> to the tail \<open>t\<close>, are \<open>xs\<close>.
\<close>

fun chain :: "(uref \<Rightarrow> Update) \<Rightarrow> uref list \<Rightarrow> bool" where
  "chain h [] = True"
| "chain h [x] = True"
| "chain h (x # y # ys) = (nxt (h x) = Some y \<and> chain h (y # ys))"

definition circular :: "(uref \<Rightarrow> Update) \<Rightarrow> uref \<Rightarrow> uref list \<Rightarrow> bool" where
  "circular h t xs \<longleftrightarrow>
     xs \<noteq> [] \<and> distinct xs \<and> last xs = t \<and> chain h xs \<and> nxt (h t) = Some (hd xs)"

text \<open>The records of the list a tail pointer of a queue points to: none for \<open>null\<close>.\<close>

definition holds :: "(uref \<Rightarrow> Update) \<Rightarrow> uref option \<Rightarrow> uref list \<Rightarrow> bool" where
  "holds h p xs = (case p of None \<Rightarrow> xs = [] | Some t \<Rightarrow> circular h t xs)"

text \<open>Neither tail pointer of the queue \<open>qu\<close> points to a record of \<open>X\<close>.\<close>

definition tailsOutside :: "uref set \<Rightarrow> Queue \<Rightarrow> bool" where
  "tailsOutside X qu \<longleftrightarrow> (\<forall>u\<in>X. interleaved qu \<noteq> Some u \<and> pending qu \<noteq> Some u)"

text \<open>\<open>returnPath h n ps\<close>: following \<open>return\<close> from the fiber \<open>n\<close> visits the ancestors
  \<open>ps\<close>, nearest first, and then reaches \<open>null\<close>.\<close>

fun returnPath :: "(fref \<Rightarrow> Fiber) \<Rightarrow> fref \<Rightarrow> fref list \<Rightarrow> bool" where
  "returnPath h n [] = (return (h n) = None)"
| "returnPath h n (p # ps) = (return (h n) = Some p \<and> returnPath h p ps)"

text \<open>Overwriting the \<open>stateNode\<close> field of every fiber, by \<open>g\<close>.\<close>

definition overwriteStateNodes :: "(fref \<Rightarrow> rootref) \<Rightarrow> state \<Rightarrow> state" where
  "overwriteStateNodes g s = s\<lparr>fibers := (\<lambda>f. (fibers s f)\<lparr>stateNode := g f\<rparr>)\<rparr>"

section \<open>Sequences of enqueue calls\<close>

text \<open>A call of one of the three enqueue entry points, with its arguments \<open>fiber\<close>,
  \<open>queue\<close>, \<open>update\<close> and \<open>lane\<close>.\<close>

datatype entry = HookUpdate | ClassUpdate | HookUpdateAndEagerlyBailout

datatype call =
  Call (entryOf: entry) (fiberOf: fref) (queueOf: qref) (recordOf: uref) (laneOf: Lanes)

text \<open>The state a call leaves, \<open>None\<close> when it does not return.\<close>

fun runCall :: "config \<Rightarrow> call \<Rightarrow> state \<Rightarrow> state option" where
  "runCall cfg (Call HookUpdate f q u l) s =
     map_option snd (enqueueConcurrentHookUpdate cfg f q u l s)"
| "runCall cfg (Call ClassUpdate f q u l) s =
     map_option snd (enqueueConcurrentClassUpdate cfg f q u l s)"
| "runCall cfg (Call HookUpdateAndEagerlyBailout f q u l) s =
     Some (enqueueConcurrentHookUpdateAndEagerlyBailout f q u l s)"

fun runCalls :: "config \<Rightarrow> call list \<Rightarrow> state \<Rightarrow> state option" where
  "runCalls cfg [] s = Some s"
| "runCalls cfg (c # cs) s =
     (case runCall cfg c s of None \<Rightarrow> None | Some s' \<Rightarrow> runCalls cfg cs s')"

text \<open>The records the calls \<open>cs\<close> append to the queue \<open>q\<close>, in the order of the calls.\<close>

definition recordsFor :: "qref \<Rightarrow> call list \<Rightarrow> uref list" where
  "recordsFor q cs = map recordOf (filter (\<lambda>c. queueOf c = q) cs)"

text \<open>What a sequence of calls maintains for the queue \<open>q\<close>: its side channel reads
  \<open>side\<close>, its primary list reads \<open>prim\<close>, no other queue points into \<open>X\<close>, and \<open>q\<close> is
  registered once its side channel is non-empty.\<close>

definition sideInv :: "qref \<Rightarrow> uref list \<Rightarrow> uref list \<Rightarrow> uref set \<Rightarrow> state \<Rightarrow> bool" where
  "sideInv q prim side X s \<longleftrightarrow>
     holds (updates s) (interleaved (queues s q)) side
   \<and> holds (updates s) (pending (queues s q)) prim
   \<and> (\<forall>q'. q' \<noteq> q \<longrightarrow> tailsOutside X (queues s q'))
   \<and> (side \<noteq> [] \<longrightarrow> (\<exists>qs. concurrentQueues s = Some qs \<and> q \<in> set qs))"

text \<open>Every queue with a non-empty side channel is in the registry.\<close>

definition allRegistered :: "state \<Rightarrow> bool" where
  "allRegistered s \<longleftrightarrow>
     (\<forall>q. interleaved (queues s q) \<noteq> None \<longrightarrow> (\<exists>qs. concurrentQueues s = Some qs \<and> q \<in> set qs))"

section \<open>ReactFiberHostContext\<close>

text \<open>
  A cursor holds the sentinel \<open>NO_CONTEXT\<close> or a value; host contexts, containers and
  fibers are all values of the one type \<open>'v\<close>. The three cursors of the module are the
  constructors of \<open>cursor\<close>, and \<open>current s c\<close> is \<open>c.current\<close>. The cursors and the
  stack they share belong to \<open>ReactFiberStack.old\<close>, which is not among the sources: the
  state follows the spec, a stack of records (node, previous value) and a current value
  for each cursor.
\<close>

datatype 'v slot = NO_CONTEXT | Val 'v

datatype cursor = contextStackCursor | contextFiberStackCursor | rootInstanceStackCursor

datatype error = Error string

record 'v hostState =
  valueStack :: "('v \<times> 'v slot) list"
  current :: "cursor \<Rightarrow> 'v slot"

text \<open>The three \<open>createCursor(NO_CONTEXT)\<close> calls of the module, on an empty stack.\<close>

definition initialHostState :: "'v hostState" where
  "initialHostState = \<lparr>valueStack = [], current = (\<lambda>_. NO_CONTEXT)\<rparr>"

text \<open>Modelled from the spec: \<open>push\<close> of \<open>ReactFiberStack.old\<close>, which is not among the
  sources. The spec: push(cursor, value, node) records (node, previousValue) and sets
  cursor.current = value. The most recent record is the head of \<open>valueStack\<close>.\<close>

definition push :: "cursor \<Rightarrow> 'v slot \<Rightarrow> 'v \<Rightarrow> 'v hostState \<Rightarrow> 'v hostState" where
  "push cursor val fiber s =
     s\<lparr>valueStack := (fiber, current s cursor) # valueStack s,
       current := (current s)(cursor := val)\<rparr>"

text \<open>Modelled from the spec: \<open>pop\<close> of \<open>ReactFiberStack.old\<close>, which is not among the
  sources. The spec: pop(cursor, node) restores the value recorded for the most recent
  push, in LIFO order. The spec does not say what a pop on an empty stack does; here it
  changes nothing.\<close>

definition pop :: "cursor \<Rightarrow> 'v \<Rightarrow> 'v hostState \<Rightarrow> 'v hostState" where
  "pop cursor fiber s =
     (case valueStack s of
        [] \<Rightarrow> s
      | (node, previousValue) # rest \<Rightarrow>
          s\<lparr>valueStack := rest, current := (current s)(cursor := previousValue)\<rparr>)"

text \<open>What the module reads and does not define: the two functions of
  \<open>ReactFiberHostConfig\<close>, which may throw, and the \<open>type\<close> field of a fiber.\<close>

record 'v hostConfig =
  getRootHostContext :: "'v \<Rightarrow> error + 'v"
  getChildHostContext :: "'v \<Rightarrow> 'v \<Rightarrow> 'v \<Rightarrow> error + 'v"
  fiberType :: "'v \<Rightarrow> 'v"

text \<open>The error \<open>requiredContext\<close> throws.\<close>

definition noHostContextError :: error where
  "noHostContextError =
     Error (''Expected host context to exist. This error is likely caused by a bug '' @
            ''in React. Please file an issue.'')"

definition requiredContext :: "'v slot \<Rightarrow> error + 'v" where
  "requiredContext c = (case c of NO_CONTEXT \<Rightarrow> Inl noHostContextError | Val v \<Rightarrow> Inr v)"

definition getRootHostContainer :: "'v hostState \<Rightarrow> error + 'v" where
  "getRootHostContainer s = requiredContext (current s rootInstanceStackCursor)"

definition pushHostContainer ::
  "'v hostConfig \<Rightarrow> 'v \<Rightarrow> 'v \<Rightarrow> 'v hostState \<Rightarrow> (error + unit) \<times> 'v hostState" where
  "pushHostContainer cfg fiber nextRootInstance s =
     (let s1 = push rootInstanceStackCursor (Val nextRootInstance) fiber s;
          s2 = push contextFiberStackCursor (Val fiber) fiber s1;
          s3 = push contextStackCursor NO_CONTEXT fiber s2
      in case getRootHostContext cfg nextRootInstance of
           Inl e \<Rightarrow> (Inl e, s3)
         | Inr nextRootContext \<Rightarrow>
             let s4 = pop contextStackCursor fiber s3
             in (Inr (), push contextStackCursor (Val nextRootContext) fiber s4))"

definition popHostContainer :: "'v \<Rightarrow> 'v hostState \<Rightarrow> 'v hostState" where
  "popHostContainer fiber s =
     pop rootInstanceStackCursor fiber
       (pop contextFiberStackCursor fiber (pop contextStackCursor fiber s))"

definition getHostContext :: "'v hostState \<Rightarrow> error + 'v" where
  "getHostContext s = requiredContext (current s contextStackCursor)"

definition pushHostContext ::
  "'v hostConfig \<Rightarrow> 'v \<Rightarrow> 'v hostState \<Rightarrow> (error + unit) \<times> 'v hostState" where
  "pushHostContext cfg fiber s =
     (case requiredContext (current s rootInstanceStackCursor) of
        Inl e \<Rightarrow> (Inl e, s)
      | Inr rootInstance \<Rightarrow>
          (case requiredContext (current s contextStackCursor) of
             Inl e \<Rightarrow> (Inl e, s)
           | Inr context \<Rightarrow>
               (case getChildHostContext cfg context (fiberType cfg fiber) rootInstance of
                  Inl e \<Rightarrow> (Inl e, s)
                | Inr nextContext \<Rightarrow>
                    if context = nextContext then (Inr (), s)
                    else
                      let s1 = push contextFiberStackCursor (Val fiber) fiber s
                      in (Inr (), push contextStackCursor (Val nextContext) fiber s1))))"

definition popHostContext :: "'v \<Rightarrow> 'v hostState \<Rightarrow> 'v hostState" where
  "popHostContext fiber s =
     (if current s contextFiberStackCursor \<noteq> Val fiber then s
      else pop contextFiberStackCursor fiber (pop contextStackCursor fiber s))"

section \<open>ReactDOMUpdateBatching\<close>

text \<open>
  The module variable \<open>isInsideEventHandler\<close>, the rest of the world the callbacks act
  on, and a counter that is not a variable of the source: \<open>finishEventHandlerRuns\<close>
  counts the entries into \<open>finishEventHandler\<close>, so that how often the finalize step ran
  can be read off a state.
\<close>

record 'w batchState =
  isInsideEventHandler :: bool
  finishEventHandlerRuns :: nat
  world :: 'w

text \<open>An argument of a call; \<open>Undefined\<close> for one the caller did not pass.\<close>

datatype 'a arg = Undefined | Arg 'a

text \<open>A JavaScript function run on a state: it returns or throws, and leaves a state.\<close>

type_synonym ('a, 'w) run = "'w batchState \<Rightarrow> (error + 'a arg) \<times> 'w batchState"

text \<open>The implementations installed by \<open>setBatchingImplementation\<close> and the two
  functions imported from \<open>ReactDOMControlledComponent\<close>, which is not among the
  sources.\<close>

record ('a, 'w) batching =
  batchedUpdatesImpl :: "('a arg \<Rightarrow> 'a arg \<Rightarrow> ('a, 'w) run) \<Rightarrow> 'a arg \<Rightarrow> 'a arg \<Rightarrow> ('a, 'w) run"
  flushSyncImpl :: "('a, 'w) run"
  needsStateRestore :: "'w batchState \<Rightarrow> bool"
  restoreStateIfNeeded :: "('a, 'w) run"

text \<open>The defaults of the module: the default \<open>batchedUpdatesImpl\<close> has two parameters
  and calls \<open>fn(bookkeeping)\<close>, the default \<open>flushSyncImpl\<close> does nothing.\<close>

definition defaultBatchedUpdatesImpl ::
  "('a arg \<Rightarrow> 'a arg \<Rightarrow> ('a, 'w) run) \<Rightarrow> 'a arg \<Rightarrow> 'a arg \<Rightarrow> ('a, 'w) run" where
  "defaultBatchedUpdatesImpl fn bookkeeping ignored = fn bookkeeping Undefined"

definition defaultFlushSyncImpl :: "('a, 'w) run" where
  "defaultFlushSyncImpl s = (Inr Undefined, s)"

definition finishEventHandler :: "('a, 'w) batching \<Rightarrow> ('a, 'w) run" where
  "finishEventHandler env s =
     (let s0 = s\<lparr>finishEventHandlerRuns := Suc (finishEventHandlerRuns s)\<rparr>;
          controlledComponentsHavePendingUpdates = needsStateRestore env s0
      in if controlledComponentsHavePendingUpdates
         then (case flushSyncImpl env s0 of
                 (Inl e, s1) \<Rightarrow> (Inl e, s1)
               | (Inr _, s1) \<Rightarrow>
                   (case restoreStateIfNeeded env s1 of
                      (Inl e, s2) \<Rightarrow> (Inl e, s2)
                    | (Inr _, s2) \<Rightarrow> (Inr Undefined, s2)))
         else (Inr Undefined, s0))"

text \<open>\<open>try { return batchedUpdatesImpl(fn, a, b) } finally { ... }\<close>: the \<open>finally\<close> block
  runs on a return and on a throw; when it throws itself, its exception is the outcome,
  otherwise the outcome of the \<open>try\<close> block stands.\<close>

definition batchedUpdates ::
  "('a, 'w) batching \<Rightarrow> ('a arg \<Rightarrow> 'a arg \<Rightarrow> ('a, 'w) run) \<Rightarrow> 'a arg \<Rightarrow> 'a arg \<Rightarrow> ('a, 'w) run" where
  "batchedUpdates env fn a b s =
     (if isInsideEventHandler s then fn a b s
      else
        let s1 = s\<lparr>isInsideEventHandler := True\<rparr>
        in case batchedUpdatesImpl env fn a b s1 of
             (r, s2) \<Rightarrow>
               let s3 = s2\<lparr>isInsideEventHandler := False\<rparr>
               in (case finishEventHandler env s3 of
                     (Inl e, s4) \<Rightarrow> (Inl e, s4)
                   | (Inr _, s4) \<Rightarrow> (r, s4)))"

section \<open>Example states\<close>

definition exampleConfig :: config where
  "exampleConfig = \<lparr>DEV = True, NoFlags = 0, Placement = 2, Hydrating = 4096, HostRoot = 3\<rparr>"

definition blankFiber :: Fiber where
  "blankFiber = \<lparr>tag = 0, stateNode = 0, return = None, alternate = None, flags = 0,
                  lanes = 0, childLanes = 0\<rparr>"

text \<open>Fiber 1 is the child of fiber 2, a host root with container 7; no record is
  linked, no queue holds a record and the registry is \<open>null\<close>.\<close>

definition exampleState :: state where
  "exampleState =
     \<lparr>updates = (\<lambda>_. \<lparr>nxt = None\<rparr>),
      queues = (\<lambda>_. \<lparr>pending = None, interleaved = None\<rparr>),
      fibers = (\<lambda>_. blankFiber)
         (1 := blankFiber\<lparr>return := Some 2\<rparr>,
          2 := blankFiber\<lparr>tag := 3, stateNode := 7\<rparr>),
      concurrentQueues = None,
      warnings = []\<rparr>"

text \<open>Queue 0 is registered; its primary list holds the records 1, 2 and its side
  channel the records 3, 4.\<close>

definition mergeExample :: state where
  "mergeExample =
     exampleState
       \<lparr>updates := (\<lambda>_. \<lparr>nxt = None\<rparr>)
          (1 := \<lparr>nxt = Some 2\<rparr>, 2 := \<lparr>nxt = Some 1\<rparr>, 3 := \<lparr>nxt = Some 4\<rparr>, 4 := \<lparr>nxt = Some 3\<rparr>),
        queues := (\<lambda>_. \<lparr>pending = None, interleaved = None\<rparr>)
          (0 := \<lparr>pending = Some 2, interleaved = Some 4\<rparr>),
        concurrentQueues := Some [0]\<rparr>"

text \<open>The primary list of queue 0 holds the record 1 alone; nothing is registered.\<close>

definition primaryExample :: state where
  "primaryExample =
     exampleState
       \<lparr>updates := (\<lambda>_. \<lparr>nxt = None\<rparr>)(1 := \<lparr>nxt = Some 1\<rparr>),
        queues := (\<lambda>_. \<lparr>pending = None, interleaved = None\<rparr>)
          (0 := \<lparr>pending = Some 1, interleaved = None\<rparr>)\<rparr>"

text \<open>A host configuration over numbers: the root context of every container is 10,
  the child context is fixed by the type of the fiber, and the type of the fiber \<open>f\<close> is
  \<open>f + 20\<close>.\<close>

definition exampleHostConfig :: "nat hostConfig" where
  "exampleHostConfig =
     \<lparr>getRootHostContext = (\<lambda>container. Inr 10),
      getChildHostContext = (\<lambda>context type rootInstance. Inr type),
      fiberType = (\<lambda>fiber. fiber + 20)\<rparr>"

text \<open>The stack after the container 5 was pushed for the root fiber 0 and then the
  context of fiber 1.\<close>

definition providerExample :: "nat hostState" where
  "providerExample =
     snd (pushHostContext exampleHostConfig 1
            (snd (pushHostContainer exampleHostConfig 0 5 initialHostState)))"

text \<open>The default implementations, controlled components that need a restore, and a
  restore that does nothing.\<close>

definition exampleBatching :: "(nat, unit) batching" where
  "exampleBatching =
     \<lparr>batchedUpdatesImpl = defaultBatchedUpdatesImpl,
      flushSyncImpl = defaultFlushSyncImpl,
      needsStateRestore = (\<lambda>s. True),
      restoreStateIfNeeded = (\<lambda>s. (Inr Undefined, s))\<rparr>"

definition idleBatchState :: "unit batchState" where
  "idleBatchState = \<lparr>isInsideEventHandler = False, finishEventHandlerRuns = 0, world = ()\<rparr>"

text \<open>An operation that throws, and one that runs it in a nested batch.\<close>

definition throwingOp :: "nat arg \<Rightarrow> nat arg \<Rightarrow> (nat, unit) run" where
  "throwingOp a b s = (Inl (Error ''boom''), s)"

definition nestedOp :: "nat arg \<Rightarrow> nat arg \<Rightarrow> (nat, unit) run" where
  "nestedOp a b s = batchedUpdates exampleBatching throwingOp a b s"

section \<open>The merge step is idempotent\<close>

lemma transferInterleaved_interleaved_None:
  "interleaved (queues (transferInterleaved q s) q) = None"
  by (simp add: transferInterleaved_def set_interleaved_def set_pending_def set_next_def Let_def
      split: option.splits)

lemma transferInterleaved_interleaved_other:
  "interleaved (queues s q') = None \<Longrightarrow> interleaved (queues (transferInterleaved q s) q') = None"
  by (simp add: transferInterleaved_def set_interleaved_def set_pending_def set_next_def Let_def
      split: option.splits)

lemma transferAll_interleaved_keeps_None:
  "interleaved (queues s q') = None \<Longrightarrow> interleaved (queues (transferAll qs s) q') = None"
  by (induction qs arbitrary: s) (simp_all add: transferInterleaved_interleaved_other)

lemma transferAll_interleaved_None:
  "q \<in> set qs \<Longrightarrow> interleaved (queues (transferAll qs s) q) = None"
proof (induction qs arbitrary: s)
  case Nil
  then show ?case by simp
next
  case (Cons a qs)
  show ?case
  proof (cases "q = a")
    case True
    then show ?thesis
      by (simp add: transferAll_interleaved_keeps_None transferInterleaved_interleaved_None)
  next
    case False
    with Cons show ?thesis by simp
  qed
qed

text \<open>
  Claim C7. Running the merge step twice gives the same state (queues, records and
  registry) as running it once: after the first call the registry is empty, so the second
  call changes nothing. When every queue with a non-empty side channel was registered, as
  the enqueue entry points keep it, the second call also finds every side channel empty.
\<close>

theorem finishQueueingConcurrentUpdates_idempotent:
  "finishQueueingConcurrentUpdates (finishQueueingConcurrentUpdates s)
     = finishQueueingConcurrentUpdates s
   \<and> concurrentQueues (finishQueueingConcurrentUpdates s) = None
   \<and> (allRegistered s \<longrightarrow>
        (\<forall>q. interleaved (queues (finishQueueingConcurrentUpdates s) q) = None))"
proof (intro conjI impI allI)
  show "finishQueueingConcurrentUpdates (finishQueueingConcurrentUpdates s)
          = finishQueueingConcurrentUpdates s"
    by (simp add: finishQueueingConcurrentUpdates_def split: option.splits)
  show "concurrentQueues (finishQueueingConcurrentUpdates s) = None"
    by (simp add: finishQueueingConcurrentUpdates_def split: option.splits)
next
  fix q
  assume reg: "allRegistered s"
  show "interleaved (queues (finishQueueingConcurrentUpdates s) q) = None"
  proof (cases "interleaved (queues s q)")
    case None
    then show ?thesis
      by (simp add: finishQueueingConcurrentUpdates_def transferAll_interleaved_keeps_None
          split: option.splits)
  next
    case (Some u)
    with reg obtain qs where "concurrentQueues s = Some qs" "q \<in> set qs"
      by (auto simp: allRegistered_def)
    then show ?thesis
      by (simp add: finishQueueingConcurrentUpdates_def transferAll_interleaved_None)
  qed
qed

lemmas queue_example_simps =
  exampleState_def enqueueConcurrentHookUpdateAndEagerlyBailout_def
  pushConcurrentUpdateQueue_def set_next_def set_interleaved_def set_pending_def Let_def

theorem finishQueueingConcurrentUpdates_idempotent_witness:
  "interleaved (queues (enqueueConcurrentHookUpdateAndEagerlyBailout 1 0 1 1 exampleState) 0) = Some 1
   \<and> concurrentQueues (enqueueConcurrentHookUpdateAndEagerlyBailout 1 0 1 1 exampleState) = Some [0]
   \<and> (\<forall>q. interleaved (queues (finishQueueingConcurrentUpdates
          (enqueueConcurrentHookUpdateAndEagerlyBailout 1 0 1 1 exampleState)) q) = None)"
proof -
  have h: "allRegistered (enqueueConcurrentHookUpdateAndEagerlyBailout 1 0 1 1 exampleState)"
    by (simp add: allRegistered_def queue_example_simps)
  from finishQueueingConcurrentUpdates_idempotent
         [of "enqueueConcurrentHookUpdateAndEagerlyBailout 1 0 1 1 exampleState"] h
  have "\<forall>q. interleaved (queues (finishQueueingConcurrentUpdates
          (enqueueConcurrentHookUpdateAndEagerlyBailout 1 0 1 1 exampleState)) q) = None"
    by blast
  then show ?thesis by (simp add: queue_example_simps)
qed

section \<open>Circular lists: framing and splicing\<close>

lemma chain_append:
  "chain h (xs @ ys) \<longleftrightarrow>
     chain h xs \<and> chain h ys \<and> (xs \<noteq> [] \<and> ys \<noteq> [] \<longrightarrow> nxt (h (last xs)) = Some (hd ys))"
proof (induction h xs rule: chain.induct)
  case (1 h)
  then show ?case by simp
next
  case (2 h x)
  then show ?case by (cases ys) auto
next
  case (3 h x y ys)
  then show ?case by auto
qed

lemma chain_agree:
  "\<forall>u\<in>set (butlast xs). nxt (h' u) = nxt (h u) \<Longrightarrow> chain h' xs = chain h xs"
  by (induction h xs rule: chain.induct) auto

lemma chain_nth:
  "chain h xs \<Longrightarrow> Suc i < length xs \<Longrightarrow> nxt (h (xs ! i)) = Some (xs ! Suc i)"
proof (induction h xs arbitrary: i rule: chain.induct)
  case (3 h x y ys)
  then show ?case by (cases i) auto
qed simp_all

lemma last_notin_butlast: "distinct xs \<Longrightarrow> xs \<noteq> [] \<Longrightarrow> last xs \<notin> set (butlast xs)"
  by (metis append_butlast_last_id distinct_butlast not_distinct_conv_prefix)

lemma circular_agree:
  assumes a: "\<forall>u\<in>set xs. nxt (h' u) = nxt (h u)"
  shows "circular h' t xs = circular h t xs"
proof -
  from a have "\<forall>u\<in>set (butlast xs). nxt (h' u) = nxt (h u)"
    by (meson in_set_butlastD)
  then have c: "chain h' xs = chain h xs" by (rule chain_agree)
  show ?thesis
  proof (cases "xs \<noteq> [] \<and> last xs = t")
    case True
    then have "t \<in> set xs" by auto
    with a have "nxt (h' t) = nxt (h t)" by simp
    with c show ?thesis by (simp add: circular_def)
  next
    case False
    then show ?thesis by (auto simp: circular_def)
  qed
qed

lemma holds_agree:
  "\<forall>u\<in>set xs. nxt (h' u) = nxt (h u) \<Longrightarrow> holds h' p xs = holds h p xs"
  by (cases p) (simp_all add: holds_def circular_agree)

text \<open>A circular list fixes the \<open>next\<close> field of each of its records.\<close>

lemma circular_next_determined:
  assumes "circular h t xs" and "circular h' t xs" and "u \<in> set xs"
  shows "nxt (h' u) = nxt (h u)"
proof -
  from assms(3) obtain i where i: "i < length xs" "xs ! i = u"
    by (auto simp: in_set_conv_nth)
  show ?thesis
  proof (cases "Suc i < length xs")
    case True
    with assms(1,2) i show ?thesis
      using chain_nth [of h xs i] chain_nth [of h' xs i] by (simp add: circular_def)
  next
    case False
    with i have "i = length xs - 1" by simp
    moreover from assms(1) have "xs \<noteq> []" by (simp add: circular_def)
    ultimately have "u = last xs" using i by (simp add: last_conv_nth)
    with assms(1,2) show ?thesis by (simp add: circular_def)
  qed
qed

text \<open>The two writes of the splice, \<open>lp.next = li.next\<close> and then \<open>li.next\<close> = the old
  \<open>lp.next\<close>, join the list ending in \<open>lp\<close> and the list ending in \<open>li\<close>.\<close>

lemma circular_splice:
  assumes p: "circular h lp prim" and s: "circular h li side" and d: "set prim \<inter> set side = {}"
  shows "circular ((h(lp := (h lp)\<lparr>nxt := nxt (h li)\<rparr>))
                    (li := ((h(lp := (h lp)\<lparr>nxt := nxt (h li)\<rparr>)) li)\<lparr>nxt := nxt (h lp)\<rparr>))
           li (prim @ side)"
proof -
  let ?h = "(h(lp := (h lp)\<lparr>nxt := nxt (h li)\<rparr>))
                    (li := ((h(lp := (h lp)\<lparr>nxt := nxt (h li)\<rparr>)) li)\<lparr>nxt := nxt (h lp)\<rparr>)"
  from p have p': "prim \<noteq> []" "distinct prim" "last prim = lp" "chain h prim"
    "nxt (h lp) = Some (hd prim)"
    by (simp_all add: circular_def)
  from s have s': "side \<noteq> []" "distinct side" "last side = li" "chain h side"
    "nxt (h li) = Some (hd side)"
    by (simp_all add: circular_def)
  from p' have lp_in: "lp \<in> set prim" by auto
  from s' have li_in: "li \<in> set side" by auto
  from lp_in li_in d have ne: "lp \<noteq> li" by auto
  from lp_in d have lp_side: "lp \<notin> set side" by auto
  from li_in d have li_prim: "li \<notin> set prim" by auto
  have lp_bl: "lp \<notin> set (butlast prim)" using p' last_notin_butlast by blast
  have li_bl: "li \<notin> set (butlast side)" using s' last_notin_butlast by blast
  have "\<forall>u\<in>set (butlast prim). nxt (?h u) = nxt (h u)"
    using lp_bl li_prim by (auto dest: in_set_butlastD)
  then have c1: "chain ?h prim" using p'(4) chain_agree by blast
  have "\<forall>u\<in>set (butlast side). nxt (?h u) = nxt (h u)"
    using li_bl lp_side by (auto dest: in_set_butlastD)
  then have c2: "chain ?h side" using s'(4) chain_agree by blast
  have link: "nxt (?h lp) = Some (hd side)" using ne s'(5) by simp
  have close: "nxt (?h li) = Some (hd prim)" using p'(5) by simp
  have "chain ?h (prim @ side)"
    unfolding chain_append using c1 c2 link p'(3) by simp
  moreover have "distinct (prim @ side)" using p'(2) s'(2) d by auto
  moreover have "last (prim @ side) = li" using s' by simp
  moreover have "hd (prim @ side) = hd prim" using p' by simp
  ultimately show ?thesis using close p'(1) unfolding circular_def by simp
qed

section \<open>The merge step on one queue among the registered ones\<close>

lemmas transfer_defs =
  transferInterleaved_def set_interleaved_def set_pending_def set_next_def Let_def

lemma transferInterleaved_queues_other:
  "q' \<noteq> q \<Longrightarrow> queues (transferInterleaved q' s) q = queues s q"
  by (simp add: transfer_defs split: option.splits)

lemma transferInterleaved_updates_outside:
  "tailsOutside X (queues s q') \<Longrightarrow> u \<in> X \<Longrightarrow> updates (transferInterleaved q' s) u = updates s u"
  by (auto simp: transfer_defs tailsOutside_def split: option.splits)

lemma transferInterleaved_tailsOutside:
  "tailsOutside X (queues s r) \<Longrightarrow> tailsOutside X (queues (transferInterleaved q' s) r)"
  by (auto simp: transfer_defs tailsOutside_def split: option.splits)

lemma transferInterleaved_no_side:
  "interleaved (queues s q) = None \<Longrightarrow> transferInterleaved q s = s"
  by (simp add: transferInterleaved_def)

lemma transferInterleaved_self:
  assumes i: "interleaved (queues s q) = Some li" and c: "circular (updates s) li side"
    and p: "holds (updates s) (pending (queues s q)) prim" and d: "set prim \<inter> set side = {}"
  shows "interleaved (queues (transferInterleaved q s) q) = None
       \<and> pending (queues (transferInterleaved q s) q) = Some li
       \<and> circular (updates (transferInterleaved q s)) li (prim @ side)"
proof (cases "pending (queues s q)")
  case None
  with p have "prim = []" by (simp add: holds_def)
  with i c None show ?thesis by (simp add: transfer_defs)
next
  case (Some lp)
  with p have cp: "circular (updates s) lp prim" by (simp add: holds_def)
  from circular_splice [OF cp c d] i Some show ?thesis
    by (simp add: transfer_defs)
qed

text \<open>Once a queue is merged, the rest of the loop leaves it alone.\<close>

lemma transferAll_merged_stable:
  assumes "interleaved (queues s q) = None" and "pending (queues s q) = Some li"
    and "circular (updates s) li xs"
    and "\<forall>q'\<in>set qs. q' \<noteq> q \<longrightarrow> tailsOutside (set xs) (queues s q')"
  shows "interleaved (queues (transferAll qs s) q) = None
       \<and> pending (queues (transferAll qs s) q) = Some li
       \<and> circular (updates (transferAll qs s)) li xs"
  using assms
proof (induction qs arbitrary: s)
  case Nil
  then show ?case by simp
next
  case (Cons a qs)
  show ?case
  proof (cases "a = q")
    case True
    with Cons.prems(1) have "transferInterleaved a s = s"
      by (simp add: transferInterleaved_no_side)
    with Cons show ?thesis by simp
  next
    case False
    let ?s = "transferInterleaved a s"
    from Cons.prems(4) False have out: "tailsOutside (set xs) (queues s a)" by simp
    have q: "queues ?s q = queues s q"
      using False by (simp add: transferInterleaved_queues_other)
    have "\<forall>u\<in>set xs. nxt (updates ?s u) = nxt (updates s u)"
      using out by (simp add: transferInterleaved_updates_outside)
    then have c: "circular (updates ?s) li xs"
      using Cons.prems(3) circular_agree by blast
    have f: "\<forall>q'\<in>set qs. q' \<noteq> q \<longrightarrow> tailsOutside (set xs) (queues ?s q')"
      using Cons.prems(4) by (simp add: transferInterleaved_tailsOutside)
    from Cons.IH [of ?s] q c f Cons.prems(1,2) show ?thesis by simp
  qed
qed

lemma transferAll_merges:
  assumes "q \<in> set qs" and "interleaved (queues s q) = Some li"
    and "circular (updates s) li side"
    and "holds (updates s) (pending (queues s q)) prim"
    and "set prim \<inter> set side = {}"
    and "\<forall>q'\<in>set qs. q' \<noteq> q \<longrightarrow> tailsOutside (set (prim @ side)) (queues s q')"
  shows "interleaved (queues (transferAll qs s) q) = None
       \<and> pending (queues (transferAll qs s) q) = Some li
       \<and> circular (updates (transferAll qs s)) li (prim @ side)"
  using assms
proof (induction qs arbitrary: s)
  case Nil
  then show ?case by simp
next
  case (Cons a qs)
  let ?s = "transferInterleaved a s"
  have f: "\<forall>q'\<in>set qs. q' \<noteq> q \<longrightarrow> tailsOutside (set (prim @ side)) (queues ?s q')"
    using Cons.prems(6) by (simp add: transferInterleaved_tailsOutside)
  show ?case
  proof (cases "a = q")
    case True
    from transferInterleaved_self [OF Cons.prems(2,3,4,5)] True
    have r: "interleaved (queues ?s q) = None" "pending (queues ?s q) = Some li"
      "circular (updates ?s) li (prim @ side)" by simp_all
    from transferAll_merged_stable [OF r f] show ?thesis by simp
  next
    case False
    with Cons.prems(1) have m: "q \<in> set qs" by simp
    from Cons.prems(6) False have out: "tailsOutside (set (prim @ side)) (queues s a)" by simp
    have q: "queues ?s q = queues s q"
      using False by (simp add: transferInterleaved_queues_other)
    have agree: "\<forall>u\<in>set (prim @ side). nxt (updates ?s u) = nxt (updates s u)"
      using out by (simp add: transferInterleaved_updates_outside)
    then have c: "circular (updates ?s) li side"
      using Cons.prems(3) circular_agree [of side "updates ?s" "updates s" li] by simp
    have h: "holds (updates ?s) (pending (queues ?s q)) prim"
      using Cons.prems(4) agree q holds_agree [of prim "updates ?s" "updates s"] by simp
    from Cons.IH [OF m _ c h Cons.prems(5) f] q Cons.prems(2) show ?thesis by simp
  qed
qed

text \<open>
  Claim C1. Let the queue \<open>q\<close> be registered, with a non-empty side channel whose
  records in arrival order are \<open>side\<close> (tail \<open>lastSide\<close>) and a primary list whose
  records are \<open>prim\<close> (none when \<open>pending\<close> is \<open>null\<close>), the two lists sharing no
  record and no other registered queue pointing into them. After the merge step
  \<open>interleaved\<close> is \<open>null\<close>, \<open>pending\<close> is the former tail of the side list, and the
  list it points to is circular and reads \<open>prim @ side\<close>: each sub-list in its own order,
  the side list after the primary one. When \<open>pending\<close> was \<open>null\<close> this is the side
  list itself, every \<open>next\<close> field as it was.
\<close>

theorem finishQueueingConcurrentUpdates_splices:
  assumes "concurrentQueues s = Some qs" and "q \<in> set qs"
    and "interleaved (queues s q) = Some lastSide"
    and "circular (updates s) lastSide side"
    and "holds (updates s) (pending (queues s q)) prim"
    and "set prim \<inter> set side = {}"
    and "\<forall>q'\<in>set qs. q' \<noteq> q \<longrightarrow> tailsOutside (set (prim @ side)) (queues s q')"
  shows "interleaved (queues (finishQueueingConcurrentUpdates s) q) = None
       \<and> pending (queues (finishQueueingConcurrentUpdates s) q) = Some lastSide
       \<and> circular (updates (finishQueueingConcurrentUpdates s)) lastSide (prim @ side)
       \<and> (pending (queues s q) = None \<longrightarrow>
            prim = [] \<and> (\<forall>u\<in>set side.
               nxt (updates (finishQueueingConcurrentUpdates s) u) = nxt (updates s u)))"
proof -
  let ?s = "finishQueueingConcurrentUpdates s"
  from transferAll_merges [OF assms(2-7)] assms(1)
  have r: "interleaved (queues ?s q) = None" "pending (queues ?s q) = Some lastSide"
    "circular (updates ?s) lastSide (prim @ side)"
    by (simp_all add: finishQueueingConcurrentUpdates_def)
  have "prim = [] \<and> (\<forall>u\<in>set side. nxt (updates ?s u) = nxt (updates s u))"
    if "pending (queues s q) = None"
  proof -
    from that assms(5) have e: "prim = []" by (simp add: holds_def)
    with r(3) have "circular (updates ?s) lastSide side" by simp
    with assms(4) e show ?thesis
      using circular_next_determined [of "updates s" lastSide side "updates ?s"] by blast
  qed
  with r show ?thesis by blast
qed

theorem finishQueueingConcurrentUpdates_splices_witness:
  "interleaved (queues (finishQueueingConcurrentUpdates mergeExample) 0) = None
   \<and> pending (queues (finishQueueingConcurrentUpdates mergeExample) 0) = Some 4
   \<and> circular (updates (finishQueueingConcurrentUpdates mergeExample)) 4 [1, 2, 3, 4]"
proof -
  have 1: "concurrentQueues mergeExample = Some [0]" by (simp add: mergeExample_def)
  have 2: "(0::nat) \<in> set [0]" by simp
  have 3: "interleaved (queues mergeExample 0) = Some 4" by (simp add: mergeExample_def)
  have 4: "circular (updates mergeExample) 4 [3, 4]" by (simp add: mergeExample_def circular_def)
  have 5: "holds (updates mergeExample) (pending (queues mergeExample 0)) [1, 2]"
    by (simp add: mergeExample_def circular_def holds_def)
  have 6: "set [1, 2] \<inter> set [3, 4::nat] = {}" by simp
  have 7: "\<forall>q'\<in>set [0::nat]. q' \<noteq> 0 \<longrightarrow>
             tailsOutside (set ([1, 2] @ [3, 4])) (queues mergeExample q')"
    by simp
  from finishQueueingConcurrentUpdates_splices [OF 1 2 3 4 5 6 7] show ?thesis by simp
qed

section \<open>Lane propagation along a finite \<open>return\<close> chain\<close>

lemma returnPath_agree:
  "\<forall>f. return (h' f) = return (h f) \<Longrightarrow> returnPath h' n ps = returnPath h n ps"
  by (induction ps arbitrary: n) simp_all

lemma returnPath_unique:
  "returnPath h n ps \<Longrightarrow> returnPath h n qs \<Longrightarrow> ps = qs"
proof (induction ps arbitrary: n qs)
  case Nil
  then show ?case by (cases qs) simp_all
next
  case (Cons p ps)
  then show ?case by (cases qs) auto
qed

lemma returnPath_suffix:
  "returnPath h n (as @ m # bs) \<Longrightarrow> returnPath h m bs"
  by (induction as arbitrary: n) auto

text \<open>A fiber whose chain reaches \<open>null\<close> is not its own ancestor.\<close>

lemma returnPath_acyclic:
  assumes "returnPath h n ps"
  shows "n \<notin> set ps"
proof
  assume "n \<in> set ps"
  then obtain as bs where ps: "ps = as @ n # bs" by (auto simp: in_set_conv_decomp)
  with assms have "returnPath h n bs" using returnPath_suffix by blast
  with assms have "ps = bs" by (rule returnPath_unique)
  with ps show False by simp
qed

lemma markParent_spec:
  "updates (markParent cfg src lane p s) = updates s
   \<and> queues (markParent cfg src lane p s) = queues s
   \<and> concurrentQueues (markParent cfg src lane p s) = concurrentQueues s
   \<and> fibers (markParent cfg src lane p s) f =
       (fibers s f)\<lparr>childLanes :=
          (if f = p \<or> alternate (fibers s p) = Some f
           then mergeLanes (childLanes (fibers s f)) lane else childLanes (fibers s f))\<rparr>"
  by (simp add: markParent_def set_childLanes_def warnAboutUpdateOnNotYetMountedFiberInDEV_def
      mergeLanes_def Let_def split: option.splits)

lemma markSourceFiber_spec:
  "updates (markSourceFiber cfg n lane s) = updates s
   \<and> queues (markSourceFiber cfg n lane s) = queues s
   \<and> concurrentQueues (markSourceFiber cfg n lane s) = concurrentQueues s
   \<and> fibers (markSourceFiber cfg n lane s) f =
       (fibers s f)\<lparr>lanes :=
          (if f = n \<or> alternate (fibers s n) = Some f
           then mergeLanes (lanes (fibers s f)) lane else lanes (fibers s f))\<rparr>"
  by (simp add: markSourceFiber_def set_lanes_def warnAboutUpdateOnNotYetMountedFiberInDEV_def
      mergeLanes_def Let_def split: option.splits)

text \<open>The loop returns on a finite chain, at the last fiber of the chain, and has merged
  the lane into the \<open>childLanes\<close> of the ancestors and of their alternates, and written
  nothing else.\<close>

lemma walkParentPath_spec:
  assumes "returnPath (fibers s) node ps"
  shows "\<exists>s'. walkParentPath cfg src lane node (return (fibers s node)) s = Some (last (node # ps), s')
     \<and> updates s' = updates s \<and> queues s' = queues s \<and> concurrentQueues s' = concurrentQueues s
     \<and> (\<forall>f. fibers s' f =
          (fibers s f)\<lparr>childLanes :=
             (if f \<in> set ps \<or> (\<exists>p\<in>set ps. alternate (fibers s p) = Some f)
              then mergeLanes (childLanes (fibers s f)) lane else childLanes (fibers s f))\<rparr>)"
  using assms
proof (induction ps arbitrary: node s)
  case Nil
  then show ?case by (simp add: walkParentPath.simps)
next
  case (Cons p ps)
  let ?s1 = "markParent cfg src lane p s"
  from Cons.prems have r: "return (fibers s node) = Some p" and path: "returnPath (fibers s) p ps"
    by simp_all
  have f1: "\<And>f. fibers ?s1 f =
       (fibers s f)\<lparr>childLanes :=
          (if f = p \<or> alternate (fibers s p) = Some f
           then mergeLanes (childLanes (fibers s f)) lane else childLanes (fibers s f))\<rparr>"
    using markParent_spec by blast
  have o1: "updates ?s1 = updates s" "queues ?s1 = queues s"
    "concurrentQueues ?s1 = concurrentQueues s"
    using markParent_spec [of cfg src lane p s] by simp_all
  have "returnPath (fibers ?s1) p ps"
    using path returnPath_agree [of "fibers ?s1" "fibers s"] by (simp add: f1)
  from Cons.IH [OF this] obtain s' where
    w: "walkParentPath cfg src lane p (return (fibers ?s1 p)) ?s1 = Some (last (p # ps), s')"
    and o: "updates s' = updates ?s1" "queues s' = queues ?s1"
      "concurrentQueues s' = concurrentQueues ?s1"
    and f: "\<And>f. fibers s' f =
          (fibers ?s1 f)\<lparr>childLanes :=
             (if f \<in> set ps \<or> (\<exists>p\<in>set ps. alternate (fibers ?s1 p) = Some f)
              then mergeLanes (childLanes (fibers ?s1 f)) lane else childLanes (fibers ?s1 f))\<rparr>"
    by blast
  have "walkParentPath cfg src lane node (return (fibers s node)) s = Some (last (node # p # ps), s')"
    using w r by (subst walkParentPath.simps) (simp add: Let_def)
  moreover have "\<forall>f. fibers s' f =
          (fibers s f)\<lparr>childLanes :=
             (if f \<in> set (p # ps) \<or> (\<exists>p'\<in>set (p # ps). alternate (fibers s p') = Some f)
              then mergeLanes (childLanes (fibers s f)) lane else childLanes (fibers s f))\<rparr>"
    by (simp add: f f1 mergeLanes_def)
  ultimately show ?case using o o1 by simp
qed

lemma markUpdateLaneFromFiberToRoot_spec:
  assumes "returnPath (fibers s) n ps"
  shows "\<exists>s'. markUpdateLaneFromFiberToRoot cfg n lane s =
            Some (if tag (fibers s (last (n # ps))) = HostRoot cfg
                  then Some (stateNode (fibers s (last (n # ps)))) else None, s')
     \<and> updates s' = updates s \<and> queues s' = queues s \<and> concurrentQueues s' = concurrentQueues s
     \<and> (\<forall>f. fibers s' f =
          (fibers s f)\<lparr>lanes :=
             (if f = n \<or> alternate (fibers s n) = Some f
              then mergeLanes (lanes (fibers s f)) lane else lanes (fibers s f)),
            childLanes :=
             (if f \<in> set ps \<or> (\<exists>p\<in>set ps. alternate (fibers s p) = Some f)
              then mergeLanes (childLanes (fibers s f)) lane else childLanes (fibers s f))\<rparr>)"
proof -
  let ?s3 = "markSourceFiber cfg n lane s"
  have f3: "\<And>f. fibers ?s3 f = (fibers s f)\<lparr>lanes :=
             (if f = n \<or> alternate (fibers s n) = Some f
              then mergeLanes (lanes (fibers s f)) lane else lanes (fibers s f))\<rparr>"
    using markSourceFiber_spec by blast
  have o3: "updates ?s3 = updates s" "queues ?s3 = queues s"
    "concurrentQueues ?s3 = concurrentQueues s"
    using markSourceFiber_spec [of cfg n lane s] by simp_all
  have "returnPath (fibers ?s3) n ps"
    using assms returnPath_agree [of "fibers ?s3" "fibers s"] by (simp add: f3)
  from walkParentPath_spec [OF this, of cfg n lane] obtain s' where
    w: "walkParentPath cfg n lane n (return (fibers ?s3 n)) ?s3 = Some (last (n # ps), s')"
    and o: "updates s' = updates ?s3" "queues s' = queues ?s3"
      "concurrentQueues s' = concurrentQueues ?s3"
    and f: "\<And>f. fibers s' f =
          (fibers ?s3 f)\<lparr>childLanes :=
             (if f \<in> set ps \<or> (\<exists>p\<in>set ps. alternate (fibers ?s3 p) = Some f)
              then mergeLanes (childLanes (fibers ?s3 f)) lane else childLanes (fibers ?s3 f))\<rparr>"
    by blast
  have "markUpdateLaneFromFiberToRoot cfg n lane s =
            Some (if tag (fibers s (last (n # ps))) = HostRoot cfg
                  then Some (stateNode (fibers s (last (n # ps)))) else None, s')"
    unfolding markUpdateLaneFromFiberToRoot_def Let_def w by (simp add: f f3)
  moreover have "\<forall>f. fibers s' f =
          (fibers s f)\<lparr>lanes :=
             (if f = n \<or> alternate (fibers s n) = Some f
              then mergeLanes (lanes (fibers s f)) lane else lanes (fibers s f)),
            childLanes :=
             (if f \<in> set ps \<or> (\<exists>p\<in>set ps. alternate (fibers s p) = Some f)
              then mergeLanes (childLanes (fibers s f)) lane else childLanes (fibers s f))\<rparr>"
    by (simp add: f f3)
  ultimately show ?thesis using o o3 by simp
qed

lemmas propagation_example_simps =
  exampleState_def exampleConfig_def blankFiber_def

text \<open>
  Claim C4. Let the \<open>return\<close> chain of the node \<open>n\<close> be finite, with ancestors \<open>ps\<close>.
  Lane propagation from \<open>n\<close> returns, and afterwards the \<open>lanes\<close> of \<open>n\<close> and of its
  alternate include the lane, and the \<open>childLanes\<close> of every ancestor and of every
  ancestor's alternate include it. No other \<open>childLanes\<close> and no other \<open>lanes\<close> field
  changes: a fiber that is neither an ancestor nor the alternate of one keeps its
  \<open>childLanes\<close>, a fiber that is neither \<open>n\<close> nor its alternate keeps its \<open>lanes\<close>.
  Since \<open>n\<close> is not its own ancestor, \<open>n\<close> keeps its \<open>childLanes\<close> and every ancestor
  its \<open>lanes\<close>, where the two buffers of the tree mirror each other: no ancestor has \<open>n\<close>
  as its alternate, and \<open>n\<close> has no ancestor as its alternate. The witness is the
  two-update scenario: the lane 1 from the child, then the lane 2 from its parent.
\<close>

theorem markUpdateLaneFromFiberToRoot_lanes:
  assumes "returnPath (fibers s) n ps"
  shows "\<exists>r s'. markUpdateLaneFromFiberToRoot cfg n lane s = Some (r, s')
     \<and> lanes (fibers s' n) AND lane = lane
     \<and> (\<forall>a. alternate (fibers s n) = Some a \<longrightarrow> lanes (fibers s' a) AND lane = lane)
     \<and> (\<forall>p\<in>set ps. childLanes (fibers s' p) AND lane = lane
           \<and> (\<forall>a. alternate (fibers s p) = Some a \<longrightarrow> childLanes (fibers s' a) AND lane = lane))
     \<and> (\<forall>f. f \<notin> set ps \<longrightarrow> (\<forall>p\<in>set ps. alternate (fibers s p) \<noteq> Some f) \<longrightarrow>
           childLanes (fibers s' f) = childLanes (fibers s f))
     \<and> (\<forall>f. f \<noteq> n \<longrightarrow> alternate (fibers s n) \<noteq> Some f \<longrightarrow>
           lanes (fibers s' f) = lanes (fibers s f))
     \<and> n \<notin> set ps
     \<and> ((\<forall>p\<in>set ps. alternate (fibers s p) \<noteq> Some n) \<longrightarrow>
           childLanes (fibers s' n) = childLanes (fibers s n))
     \<and> (\<forall>p\<in>set ps. alternate (fibers s n) \<noteq> Some p \<longrightarrow> lanes (fibers s' p) = lanes (fibers s p))"
proof -
  have nin: "n \<notin> set ps" using assms by (rule returnPath_acyclic)
  from markUpdateLaneFromFiberToRoot_spec [OF assms, of cfg lane] obtain r s' where
    m: "markUpdateLaneFromFiberToRoot cfg n lane s = Some (r, s')"
    and f: "\<And>f. fibers s' f =
          (fibers s f)\<lparr>lanes :=
             (if f = n \<or> alternate (fibers s n) = Some f
              then mergeLanes (lanes (fibers s f)) lane else lanes (fibers s f)),
            childLanes :=
             (if f \<in> set ps \<or> (\<exists>p\<in>set ps. alternate (fibers s p) = Some f)
              then mergeLanes (childLanes (fibers s f)) lane else childLanes (fibers s f))\<rparr>"
    by blast
  show ?thesis
    apply (rule exI [of _ r], rule exI [of _ s'])
    using m nin apply (auto simp add: f mergeLanes_def)
    done
qed

theorem markUpdateLaneFromFiberToRoot_lanes_witness:
  "\<exists>r1 s1 r2 s2. markUpdateLaneFromFiberToRoot exampleConfig 1 1 exampleState = Some (r1, s1)
     \<and> markUpdateLaneFromFiberToRoot exampleConfig 2 2 s1 = Some (r2, s2)
     \<and> lanes (fibers s1 1) = 1 \<and> childLanes (fibers s1 2) = 1 \<and> lanes (fibers s1 2) = 0
     \<and> lanes (fibers s2 1) = 1 \<and> lanes (fibers s2 2) AND 2 = 2 \<and> childLanes (fibers s2 2) = 1"
proof -
  have h: "returnPath (fibers exampleState) 1 [2]"
    by (simp add: propagation_example_simps)
  from markUpdateLaneFromFiberToRoot_spec [OF h, of exampleConfig 1] obtain r1 s1 where
    m1: "markUpdateLaneFromFiberToRoot exampleConfig 1 1 exampleState = Some (r1, s1)"
    and f1: "\<And>f. fibers s1 f =
          (fibers exampleState f)\<lparr>lanes :=
             (if f = 1 \<or> alternate (fibers exampleState 1) = Some f
              then mergeLanes (lanes (fibers exampleState f)) 1 else lanes (fibers exampleState f)),
            childLanes :=
             (if f \<in> set [2] \<or> (\<exists>p\<in>set [2]. alternate (fibers exampleState p) = Some f)
              then mergeLanes (childLanes (fibers exampleState f)) 1
              else childLanes (fibers exampleState f))\<rparr>"
    by blast
  have v1: "lanes (fibers s1 1) = 1" "childLanes (fibers s1 2) = 1" "alternate (fibers s1 2) = None"
    by (simp_all add: f1 propagation_example_simps mergeLanes_def)
  from markUpdateLaneFromFiberToRoot_lanes [OF h, of exampleConfig 1] obtain r s' where
    m: "markUpdateLaneFromFiberToRoot exampleConfig 1 1 exampleState = Some (r, s')"
    and k1: "\<forall>p\<in>set [2]. alternate (fibers exampleState 1) \<noteq> Some p \<longrightarrow>
           lanes (fibers s' p) = lanes (fibers exampleState p)"
    by blast
  from m m1 have "s' = s1" by simp
  with k1 have p1: "lanes (fibers s1 2) = 0"
    by (simp add: propagation_example_simps)
  have h2: "returnPath (fibers s1) 2 []"
    by (simp add: f1 propagation_example_simps)
  from markUpdateLaneFromFiberToRoot_lanes [OF h2, of exampleConfig 2] obtain r2 s2 where
    m2: "markUpdateLaneFromFiberToRoot exampleConfig 2 2 s1 = Some (r2, s2)"
    and l2: "lanes (fibers s2 2) AND 2 = 2"
    and c2: "\<forall>f. f \<notin> set [] \<longrightarrow> (\<forall>p\<in>set []. alternate (fibers s1 p) \<noteq> Some f) \<longrightarrow>
           childLanes (fibers s2 f) = childLanes (fibers s1 f)"
    and k2: "\<forall>f. f \<noteq> 2 \<longrightarrow> alternate (fibers s1 2) \<noteq> Some f \<longrightarrow>
           lanes (fibers s2 f) = lanes (fibers s1 f)"
    by blast
  from k2 v1 have "lanes (fibers s2 1) = 1" by simp
  moreover from c2 v1 have "childLanes (fibers s2 2) = 1" by simp
  ultimately show ?thesis using m1 m2 v1 p1 l2 by blast
qed

section \<open>The value lane propagation returns\<close>

lemma overwrite_fields [simp]:
  "updates (overwriteStateNodes g s) = updates s"
  "queues (overwriteStateNodes g s) = queues s"
  "concurrentQueues (overwriteStateNodes g s) = concurrentQueues s"
  "warnings (overwriteStateNodes g s) = warnings s"
  "return (fibers (overwriteStateNodes g s) f) = return (fibers s f)"
  "alternate (fibers (overwriteStateNodes g s) f) = alternate (fibers s f)"
  "tag (fibers (overwriteStateNodes g s) f) = tag (fibers s f)"
  "flags (fibers (overwriteStateNodes g s) f) = flags (fibers s f)"
  "lanes (fibers (overwriteStateNodes g s) f) = lanes (fibers s f)"
  "childLanes (fibers (overwriteStateNodes g s) f) = childLanes (fibers s f)"
  "stateNode (fibers (overwriteStateNodes g s) f) = g f"
  by (simp_all add: overwriteStateNodes_def)

lemma set_childLanes_overwrite:
  "set_childLanes f v (overwriteStateNodes g s) = overwriteStateNodes g (set_childLanes f v s)"
  by (auto simp: set_childLanes_def overwriteStateNodes_def fun_eq_iff)

lemma set_lanes_overwrite:
  "set_lanes f v (overwriteStateNodes g s) = overwriteStateNodes g (set_lanes f v s)"
  by (auto simp: set_lanes_def overwriteStateNodes_def fun_eq_iff)

lemma warn_overwrite:
  "warnAboutUpdateOnNotYetMountedFiberInDEV f (overwriteStateNodes g s)
     = overwriteStateNodes g (warnAboutUpdateOnNotYetMountedFiberInDEV f s)"
  by (simp add: warnAboutUpdateOnNotYetMountedFiberInDEV_def overwriteStateNodes_def)

lemma markParent_overwrite:
  "markParent cfg src lane p (overwriteStateNodes g s)
     = overwriteStateNodes g (markParent cfg src lane p s)"
  by (simp add: markParent_def Let_def set_childLanes_overwrite warn_overwrite
      split: option.splits)

lemma markSourceFiber_overwrite:
  "markSourceFiber cfg n lane (overwriteStateNodes g s)
     = overwriteStateNodes g (markSourceFiber cfg n lane s)"
  by (simp add: markSourceFiber_def Let_def set_lanes_overwrite warn_overwrite
      split: option.splits)

lemma walkParentPath_overwrite:
  assumes "returnPath (fibers s) node ps"
    and "walkParentPath cfg src lane node (return (fibers s node)) s = Some (m, s')"
  shows "walkParentPath cfg src lane node (return (fibers s node)) (overwriteStateNodes g s)
           = Some (m, overwriteStateNodes g s')"
  using assms
proof (induction ps arbitrary: node s)
  case Nil
  then show ?case by (simp add: walkParentPath.simps)
next
  case (Cons p ps)
  let ?s1 = "markParent cfg src lane p s"
  from Cons.prems(1) have r: "return (fibers s node) = Some p" and path: "returnPath (fibers s) p ps"
    by simp_all
  have "returnPath (fibers ?s1) p ps"
    using path returnPath_agree [of "fibers ?s1" "fibers s"] markParent_spec [of cfg src lane p s]
    by simp
  moreover from Cons.prems(2) r
  have "walkParentPath cfg src lane p (return (fibers ?s1 p)) ?s1 = Some (m, s')"
    by (subst (asm) walkParentPath.simps) (simp add: Let_def)
  ultimately have "walkParentPath cfg src lane p (return (fibers ?s1 p)) (overwriteStateNodes g ?s1)
           = Some (m, overwriteStateNodes g s')"
    by (rule Cons.IH)
  then show ?case using r
    by (subst walkParentPath.simps) (simp add: Let_def markParent_overwrite)
qed

text \<open>Whatever the \<open>stateNode\<close> fields hold, the run writes the same fields, and the
  only \<open>stateNode\<close> it returns is that of the last fiber, when that is a host root.\<close>

lemma markUpdateLaneFromFiberToRoot_overwrite:
  assumes "returnPath (fibers s) n ps"
    and "markUpdateLaneFromFiberToRoot cfg n lane s = Some (r, s')"
  shows "markUpdateLaneFromFiberToRoot cfg n lane (overwriteStateNodes g s) =
            Some (if tag (fibers s (last (n # ps))) = HostRoot cfg
                  then Some (g (last (n # ps))) else None, overwriteStateNodes g s')"
proof -
  let ?s3 = "markSourceFiber cfg n lane s"
  have f3: "\<And>f. fibers ?s3 f = (fibers s f)\<lparr>lanes :=
             (if f = n \<or> alternate (fibers s n) = Some f
              then mergeLanes (lanes (fibers s f)) lane else lanes (fibers s f))\<rparr>"
    using markSourceFiber_spec by blast
  have path: "returnPath (fibers ?s3) n ps"
    using assms(1) returnPath_agree [of "fibers ?s3" "fibers s"] by (simp add: f3)
  from walkParentPath_spec [OF path, of cfg n lane] obtain t where
    w: "walkParentPath cfg n lane n (return (fibers ?s3 n)) ?s3 = Some (last (n # ps), t)"
    and f: "\<And>f. fibers t f =
          (fibers ?s3 f)\<lparr>childLanes :=
             (if f \<in> set ps \<or> (\<exists>p\<in>set ps. alternate (fibers ?s3 p) = Some f)
              then mergeLanes (childLanes (fibers ?s3 f)) lane else childLanes (fibers ?s3 f))\<rparr>"
    by blast
  from assms(2) w have t: "t = s'"
    unfolding markUpdateLaneFromFiberToRoot_def Let_def by (simp split: if_splits)
  from walkParentPath_overwrite [OF path w, of g]
  have "walkParentPath cfg n lane n (return (fibers (overwriteStateNodes g ?s3) n))
          (overwriteStateNodes g ?s3) = Some (last (n # ps), overwriteStateNodes g t)"
    by simp
  moreover have "\<And>x. tag (fibers s' x) = tag (fibers s x)"
    using f f3 t by simp
  ultimately show ?thesis
    unfolding markUpdateLaneFromFiberToRoot_def Let_def markSourceFiber_overwrite using t by simp
qed

text \<open>
  Claim C5. Let the \<open>return\<close> chain of the starting node \<open>n\<close> be finite, so that
  following \<open>return\<close> reaches a last node, \<open>last (n # ps)\<close>. Lane propagation returns the
  \<open>stateNode\<close> of that node, the root container, exactly when its tag is \<open>HostRoot\<close>, and
  \<open>null\<close> otherwise. It reads no root container: run on a state whose \<open>stateNode\<close>
  fields hold anything else, \<open>g\<close>, it writes the same fields, returns \<open>null\<close> again when
  the last node is no host root, and otherwise returns what the last node holds.
\<close>

theorem markUpdateLaneFromFiberToRoot_returns:
  assumes "returnPath (fibers s) n ps"
  shows "\<exists>s'. markUpdateLaneFromFiberToRoot cfg n lane s =
            Some (if tag (fibers s (last (n # ps))) = HostRoot cfg
                  then Some (stateNode (fibers s (last (n # ps)))) else None, s')
       \<and> (\<forall>g. markUpdateLaneFromFiberToRoot cfg n lane (overwriteStateNodes g s) =
            Some (if tag (fibers s (last (n # ps))) = HostRoot cfg
                  then Some (g (last (n # ps))) else None, overwriteStateNodes g s'))"
proof -
  from markUpdateLaneFromFiberToRoot_spec [OF assms, of cfg lane] obtain s' where
    m: "markUpdateLaneFromFiberToRoot cfg n lane s =
            Some (if tag (fibers s (last (n # ps))) = HostRoot cfg
                  then Some (stateNode (fibers s (last (n # ps)))) else None, s')"
    by blast
  from markUpdateLaneFromFiberToRoot_overwrite [OF assms m] m show ?thesis by blast
qed

theorem markUpdateLaneFromFiberToRoot_returns_witness:
  "(\<exists>s'. markUpdateLaneFromFiberToRoot exampleConfig 1 1 exampleState = Some (Some 7, s'))
   \<and> (\<exists>s'. markUpdateLaneFromFiberToRoot exampleConfig 5 1 exampleState = Some (None, s'))"
proof -
  have h1: "returnPath (fibers exampleState) 1 [2]"
    by (simp add: propagation_example_simps)
  have h5: "returnPath (fibers exampleState) 5 []"
    by (simp add: propagation_example_simps)
  have t1: "tag (fibers exampleState (last [1, 2])) = HostRoot exampleConfig"
    "stateNode (fibers exampleState (last [1, 2])) = 7"
    by (simp_all add: propagation_example_simps)
  have t5: "tag (fibers exampleState (last [5])) \<noteq> HostRoot exampleConfig"
    by (simp add: propagation_example_simps)
  from markUpdateLaneFromFiberToRoot_returns [OF h1, of exampleConfig 1] t1
  have "\<exists>s'. markUpdateLaneFromFiberToRoot exampleConfig 1 1 exampleState = Some (Some 7, s')"
    by auto
  moreover from markUpdateLaneFromFiberToRoot_returns [OF h5, of exampleConfig 1] t5
  have "\<exists>s'. markUpdateLaneFromFiberToRoot exampleConfig 5 1 exampleState = Some (None, s')"
    by auto
  ultimately show ?thesis by blast
qed

section \<open>Enqueueing on the side channel\<close>

lemma walkParentPath_frame:
  assumes "walkParentPath cfg src lane node parent s = Some y"
  shows "updates (snd y) = updates s \<and> queues (snd y) = queues s
       \<and> concurrentQueues (snd y) = concurrentQueues s"
  using assms
proof (induction rule: walkParentPath.raw_induct [rotated 1, consumes 1])
  case (1 walk cfg src lane node parent s y)
  show ?case
  proof (cases parent)
    case None
    with 1(2) show ?thesis by auto
  next
    case (Some p)
    with 1(2) have "walk cfg src lane p (return (fibers (markParent cfg src lane p s) p))
                      (markParent cfg src lane p s) = Some y"
      by (simp add: Let_def)
    from 1(1) [OF this] markParent_spec [of cfg src lane p s] show ?thesis by simp
  qed
qed

lemma markUpdateLaneFromFiberToRoot_frame:
  assumes "markUpdateLaneFromFiberToRoot cfg n lane s = Some (r, s')"
  shows "updates s' = updates s \<and> queues s' = queues s \<and> concurrentQueues s' = concurrentQueues s"
proof -
  let ?s3 = "markSourceFiber cfg n lane s"
  from assms obtain m where
    "walkParentPath cfg n lane n (return (fibers ?s3 n)) ?s3 = Some (m, s')"
    unfolding markUpdateLaneFromFiberToRoot_def Let_def
    by (auto split: option.splits if_splits)
  from walkParentPath_frame [OF this] markSourceFiber_spec [of cfg n lane s]
  show ?thesis by simp
qed

lemma enqueueConcurrentHookUpdate_eq:
  "enqueueConcurrentHookUpdate cfg f q u l s =
     markUpdateLaneFromFiberToRoot cfg f l (enqueueConcurrentHookUpdateAndEagerlyBailout f q u l s)"
  by (simp add: enqueueConcurrentHookUpdate_def enqueueConcurrentHookUpdateAndEagerlyBailout_def
      Let_def)

lemma enqueueConcurrentClassUpdate_eq:
  "enqueueConcurrentClassUpdate cfg f q u l s =
     markUpdateLaneFromFiberToRoot cfg f l (enqueueConcurrentHookUpdateAndEagerlyBailout f q u l s)"
  by (simp add: enqueueConcurrentClassUpdate_def enqueueConcurrentHookUpdateAndEagerlyBailout_def
      Let_def)

lemmas enqueue_defs =
  enqueueConcurrentHookUpdateAndEagerlyBailout_def pushConcurrentUpdateQueue_def
  set_next_def set_interleaved_def Let_def

lemma bailout_fibers:
  "fibers (enqueueConcurrentHookUpdateAndEagerlyBailout f q u l s) = fibers s
   \<and> warnings (enqueueConcurrentHookUpdateAndEagerlyBailout f q u l s) = warnings s"
  by (simp add: enqueue_defs split: option.splits)

lemma bailout_queues:
  "queues (enqueueConcurrentHookUpdateAndEagerlyBailout f q u l s) =
     (queues s)(q := (queues s q)\<lparr>interleaved := Some u\<rparr>)"
  by (simp add: enqueue_defs split: option.splits)

lemma bailout_first:
  assumes "interleaved (queues s q) = None"
  shows "updates (enqueueConcurrentHookUpdateAndEagerlyBailout f q u l s) =
           (updates s)(u := (updates s u)\<lparr>nxt := Some u\<rparr>)
       \<and> concurrentQueues (enqueueConcurrentHookUpdateAndEagerlyBailout f q u l s) =
           Some ((case concurrentQueues s of None \<Rightarrow> [] | Some qs \<Rightarrow> qs) @ [q])"
  using assms by (simp add: enqueue_defs split: option.splits)

lemma bailout_splice:
  assumes "interleaved (queues s q) = Some i"
  shows "updates (enqueueConcurrentHookUpdateAndEagerlyBailout f q u l s) =
           (updates s)(u := (updates s u)\<lparr>nxt := nxt (updates s i)\<rparr>,
                       i := (if i = u then (updates s u)\<lparr>nxt := nxt (updates s i)\<rparr>
                             else updates s i)\<lparr>nxt := Some u\<rparr>)
       \<and> concurrentQueues (enqueueConcurrentHookUpdateAndEagerlyBailout f q u l s) =
           concurrentQueues s"
  using assms by (simp add: enqueue_defs split: option.splits)

lemma circular_snoc:
  assumes c: "circular h i xs" and u: "u \<notin> set xs"
  shows "circular (h(u := (h u)\<lparr>nxt := nxt (h i)\<rparr>, i := (h i)\<lparr>nxt := Some u\<rparr>)) u (xs @ [u])"
proof -
  let ?h = "h(u := (h u)\<lparr>nxt := nxt (h i)\<rparr>, i := (h i)\<lparr>nxt := Some u\<rparr>)"
  from c have c': "xs \<noteq> []" "distinct xs" "last xs = i" "chain h xs" "nxt (h i) = Some (hd xs)"
    by (simp_all add: circular_def)
  from c' have i_in: "i \<in> set xs" by auto
  with u have ne: "i \<noteq> u" by auto
  have "i \<notin> set (butlast xs)" using c' last_notin_butlast by blast
  then have "\<forall>v\<in>set (butlast xs). nxt (?h v) = nxt (h v)"
    using u by (auto dest: in_set_butlastD)
  then have "chain ?h xs" using c'(4) chain_agree by blast
  moreover have "nxt (?h i) = Some u" by simp
  ultimately have "chain ?h (xs @ [u])"
    unfolding chain_append using c'(3) by simp
  moreover have "nxt (?h u) = Some (hd (xs @ [u]))" using ne c'(1,5) by simp
  ultimately show ?thesis using c'(2) u by (simp add: circular_def)
qed

lemma bailout_circular:
  assumes "holds (updates s) (interleaved (queues s q)) xs" and "u \<notin> set xs"
  shows "circular (updates (enqueueConcurrentHookUpdateAndEagerlyBailout f q u l s)) u (xs @ [u])"
proof (cases "interleaved (queues s q)")
  case None
  with assms have "xs = []" by (simp add: holds_def)
  with bailout_first [OF None, of f u l] show ?thesis by (simp add: circular_def)
next
  case (Some i)
  with assms have c: "circular (updates s) i xs" by (simp add: holds_def)
  then have "i \<in> set xs" by (auto simp: circular_def)
  with assms(2) have "i \<noteq> u" by auto
  with bailout_splice [OF Some, of f u l] circular_snoc [OF c assms(2)] show ?thesis by simp
qed

text \<open>
  Claim C9. The eager-bailout variant returns no value and leaves every fiber (and the
  diagnostic sink) as it was. The regular hook-style enqueue is lane propagation run
  on the state the bailout variant leaves, and lane propagation, when it returns, has
  written no record, no queue and not the registry: both variants do the same
  side-channel mutation.
\<close>

theorem enqueueConcurrentHookUpdateAndEagerlyBailout_skips_propagation:
  "fibers (enqueueConcurrentHookUpdateAndEagerlyBailout f q u l s) = fibers s
   \<and> warnings (enqueueConcurrentHookUpdateAndEagerlyBailout f q u l s) = warnings s
   \<and> enqueueConcurrentHookUpdate cfg f q u l s =
       markUpdateLaneFromFiberToRoot cfg f l (enqueueConcurrentHookUpdateAndEagerlyBailout f q u l s)
   \<and> (\<forall>r s'. enqueueConcurrentHookUpdate cfg f q u l s = Some (r, s') \<longrightarrow>
         updates s' = updates (enqueueConcurrentHookUpdateAndEagerlyBailout f q u l s)
       \<and> queues s' = queues (enqueueConcurrentHookUpdateAndEagerlyBailout f q u l s)
       \<and> concurrentQueues s' = concurrentQueues (enqueueConcurrentHookUpdateAndEagerlyBailout f q u l s))"
proof (intro conjI allI impI)
  show "fibers (enqueueConcurrentHookUpdateAndEagerlyBailout f q u l s) = fibers s"
    "warnings (enqueueConcurrentHookUpdateAndEagerlyBailout f q u l s) = warnings s"
    using bailout_fibers [of f q u l s] by simp_all
  show "enqueueConcurrentHookUpdate cfg f q u l s =
       markUpdateLaneFromFiberToRoot cfg f l (enqueueConcurrentHookUpdateAndEagerlyBailout f q u l s)"
    by (rule enqueueConcurrentHookUpdate_eq)
next
  fix r s'
  assume "enqueueConcurrentHookUpdate cfg f q u l s = Some (r, s')"
  then have "markUpdateLaneFromFiberToRoot cfg f l
      (enqueueConcurrentHookUpdateAndEagerlyBailout f q u l s) = Some (r, s')"
    by (simp only: enqueueConcurrentHookUpdate_eq)
  from markUpdateLaneFromFiberToRoot_frame [OF this]
  show "updates s' = updates (enqueueConcurrentHookUpdateAndEagerlyBailout f q u l s)"
    "queues s' = queues (enqueueConcurrentHookUpdateAndEagerlyBailout f q u l s)"
    "concurrentQueues s' = concurrentQueues (enqueueConcurrentHookUpdateAndEagerlyBailout f q u l s)"
    by simp_all
qed

theorem enqueueConcurrentHookUpdateAndEagerlyBailout_skips_propagation_witness:
  "\<exists>r s'. enqueueConcurrentHookUpdate exampleConfig 1 0 1 1 exampleState = Some (r, s')
     \<and> updates s' = updates (enqueueConcurrentHookUpdateAndEagerlyBailout 1 0 1 1 exampleState)
     \<and> queues s' = queues (enqueueConcurrentHookUpdateAndEagerlyBailout 1 0 1 1 exampleState)
     \<and> concurrentQueues s' = Some [0]
     \<and> fibers (enqueueConcurrentHookUpdateAndEagerlyBailout 1 0 1 1 exampleState) = fibers exampleState"
proof -
  let ?b = "enqueueConcurrentHookUpdateAndEagerlyBailout 1 0 1 1 exampleState"
  note c = enqueueConcurrentHookUpdateAndEagerlyBailout_skips_propagation
             [of 1 0 1 1 exampleState exampleConfig]
  from c have fb: "fibers ?b = fibers exampleState" by blast
  have "returnPath (fibers exampleState) 1 [2]" by (simp add: propagation_example_simps)
  with fb have "returnPath (fibers ?b) 1 [2]" by simp
  from markUpdateLaneFromFiberToRoot_spec [OF this, of exampleConfig 1] obtain r s' where
    "markUpdateLaneFromFiberToRoot exampleConfig 1 1 ?b = Some (r, s')" by blast
  with c have e: "enqueueConcurrentHookUpdate exampleConfig 1 0 1 1 exampleState = Some (r, s')"
    by simp
  with c have "updates s' = updates ?b \<and> queues s' = queues ?b
      \<and> concurrentQueues s' = concurrentQueues ?b" by blast
  moreover have "concurrentQueues ?b = Some [0]" by (simp add: queue_example_simps)
  ultimately show ?thesis using e fb by simp
qed

text \<open>
  Claim C3. Let the \<open>return\<close> chain of the target fiber be finite, so that the enqueue
  returns. The hook-style and the class-style enqueue of the record \<open>u\<close> on the queue \<open>q\<close>
  end in the same state, in which the tail pointer of the side channel is \<open>u\<close>. When the
  side channel was empty, \<open>u.next = u\<close> and \<open>q\<close> has been appended to the registry.
  Otherwise, with \<open>i\<close> the former tail, \<open>i.next = u\<close>, the registry is as it was, and
  \<open>u.next\<close> is the former \<open>i.next\<close> for a record \<open>u\<close> other than \<open>i\<close>. In both cases, when
  the side channel was a circular list reading \<open>xs\<close> and \<open>u\<close> is not one of its records,
  it is afterwards a circular list reading \<open>xs @ [u]\<close>. The witness is the scenario of
  the claim: \<open>B = 2\<close> enqueued on the side channel holding only \<open>A = 1\<close>.
\<close>

theorem enqueueConcurrent_side_channel:
  assumes "returnPath (fibers s) fiber ps"
  shows "\<exists>r s'. enqueueConcurrentHookUpdate cfg fiber q u lane s = Some (r, s')
     \<and> enqueueConcurrentClassUpdate cfg fiber q u lane s = Some (r, s')
     \<and> interleaved (queues s' q) = Some u
     \<and> (interleaved (queues s q) = None \<longrightarrow>
          nxt (updates s' u) = Some u
        \<and> concurrentQueues s' = Some ((case concurrentQueues s of None \<Rightarrow> [] | Some qs \<Rightarrow> qs) @ [q]))
     \<and> (\<forall>i. interleaved (queues s q) = Some i \<longrightarrow>
          nxt (updates s' i) = Some u
        \<and> (i \<noteq> u \<longrightarrow> nxt (updates s' u) = nxt (updates s i))
        \<and> concurrentQueues s' = concurrentQueues s)
     \<and> (\<forall>xs. holds (updates s) (interleaved (queues s q)) xs \<longrightarrow> u \<notin> set xs \<longrightarrow>
          circular (updates s') u (xs @ [u]))"
proof -
  let ?s1 = "enqueueConcurrentHookUpdateAndEagerlyBailout fiber q u lane s"
  have "returnPath (fibers ?s1) fiber ps" using assms bailout_fibers [of fiber q u lane s] by simp
  from markUpdateLaneFromFiberToRoot_spec [OF this, of cfg lane] obtain r s' where
    m: "markUpdateLaneFromFiberToRoot cfg fiber lane ?s1 = Some (r, s')"
    and o: "updates s' = updates ?s1" "queues s' = queues ?s1"
      "concurrentQueues s' = concurrentQueues ?s1"
    by blast
  have 1: "enqueueConcurrentHookUpdate cfg fiber q u lane s = Some (r, s')"
    using m by (simp add: enqueueConcurrentHookUpdate_eq)
  have 2: "enqueueConcurrentClassUpdate cfg fiber q u lane s = Some (r, s')"
    using m by (simp add: enqueueConcurrentClassUpdate_eq)
  have 3: "interleaved (queues s' q) = Some u" by (simp add: o bailout_queues)
  have 4: "nxt (updates s' u) = Some u
        \<and> concurrentQueues s' = Some ((case concurrentQueues s of None \<Rightarrow> [] | Some qs \<Rightarrow> qs) @ [q])"
    if "interleaved (queues s q) = None"
    using bailout_first [OF that, of fiber u lane] by (simp add: o)
  have 5: "nxt (updates s' i) = Some u
        \<and> (i \<noteq> u \<longrightarrow> nxt (updates s' u) = nxt (updates s i))
        \<and> concurrentQueues s' = concurrentQueues s"
    if "interleaved (queues s q) = Some i" for i
    using bailout_splice [OF that, of fiber u lane] by (simp add: o)
  have 6: "circular (updates s') u (xs @ [u])"
    if "holds (updates s) (interleaved (queues s q)) xs" "u \<notin> set xs" for xs
    using bailout_circular [OF that, of fiber lane] by (simp add: o)
  show ?thesis
  proof (intro exI conjI allI impI)
    show "enqueueConcurrentHookUpdate cfg fiber q u lane s = Some (r, s')" by (rule 1)
    show "enqueueConcurrentClassUpdate cfg fiber q u lane s = Some (r, s')" by (rule 2)
    show "interleaved (queues s' q) = Some u" by (rule 3)
  next
    assume "interleaved (queues s q) = None"
    from 4 [OF this]
    show "nxt (updates s' u) = Some u"
      "concurrentQueues s' = Some ((case concurrentQueues s of None \<Rightarrow> [] | Some qs \<Rightarrow> qs) @ [q])"
      by simp_all
  next
    fix i assume i: "interleaved (queues s q) = Some i"
    from 5 [OF i] show "nxt (updates s' i) = Some u" "concurrentQueues s' = concurrentQueues s"
      by simp_all
    assume "i \<noteq> u"
    with 5 [OF i] show "nxt (updates s' u) = nxt (updates s i)" by simp
  next
    fix xs assume "holds (updates s) (interleaved (queues s q)) xs" "u \<notin> set xs"
    then show "circular (updates s') u (xs @ [u])" by (rule 6)
  qed
qed

theorem enqueueConcurrent_side_channel_witness:
  "\<exists>r s'. enqueueConcurrentHookUpdate exampleConfig 1 0 2 1
              (enqueueConcurrentHookUpdateAndEagerlyBailout 1 0 1 1 exampleState) = Some (r, s')
     \<and> nxt (updates s' 2) = Some 1 \<and> nxt (updates s' 1) = Some 2
     \<and> interleaved (queues s' 0) = Some 2
     \<and> circular (updates s') 2 [1, 2]"
proof -
  let ?a = "enqueueConcurrentHookUpdateAndEagerlyBailout 1 0 1 1 exampleState"
  have h: "returnPath (fibers ?a) 1 [2]"
    by (simp add: queue_example_simps blankFiber_def)
  have i: "interleaved (queues ?a 0) = Some 1" and n: "nxt (updates ?a 1) = Some 1"
    by (simp_all add: queue_example_simps)
  have c: "holds (updates ?a) (interleaved (queues ?a 0)) [1]"
    by (simp add: holds_def circular_def queue_example_simps)
  from enqueueConcurrent_side_channel [OF h, of exampleConfig 0 2 1] obtain r s' where
    e: "enqueueConcurrentHookUpdate exampleConfig 1 0 2 1 ?a = Some (r, s')"
    and t: "interleaved (queues s' 0) = Some 2"
    and s: "\<forall>i. interleaved (queues ?a 0) = Some i \<longrightarrow>
          nxt (updates s' i) = Some 2
        \<and> (i \<noteq> 2 \<longrightarrow> nxt (updates s' 2) = nxt (updates ?a i))
        \<and> concurrentQueues s' = concurrentQueues ?a"
    and l: "\<forall>xs. holds (updates ?a) (interleaved (queues ?a 0)) xs \<longrightarrow> 2 \<notin> set xs \<longrightarrow>
          circular (updates s') 2 (xs @ [2])"
    by blast
  from s i n have "nxt (updates s' 1) = Some 2" "nxt (updates s' 2) = Some 1" by simp_all
  moreover have "circular (updates s') 2 ([1] @ [2])"
    using l [rule_format, of "[1]"] c by simp
  ultimately show ?thesis using e t by simp
qed

section \<open>Appends followed by the merge step\<close>

lemma tailsOutside_mono: "X \<subseteq> Y \<Longrightarrow> tailsOutside Y qu \<Longrightarrow> tailsOutside X qu"
  by (auto simp: tailsOutside_def)

lemma bailout_updates_other:
  "v \<noteq> u \<Longrightarrow> interleaved (queues s q0) \<noteq> Some v \<Longrightarrow>
     updates (enqueueConcurrentHookUpdateAndEagerlyBailout f q0 u l s) v = updates s v"
  by (auto simp: enqueue_defs split: option.splits)

lemma bailout_registry:
  "concurrentQueues s = Some qs \<Longrightarrow> q \<in> set qs \<Longrightarrow>
     \<exists>qs'. concurrentQueues (enqueueConcurrentHookUpdateAndEagerlyBailout f q0 u l s) = Some qs'
           \<and> q \<in> set qs'"
  by (auto simp: enqueue_defs split: option.splits)

lemma bailout_sideInv:
  assumes inv: "sideInv q prim side X s"
    and sub: "set prim \<union> set side \<subseteq> X" and disj: "set prim \<inter> set side = {}"
    and u: "u \<notin> set prim \<union> set side" and uX: "q0 \<noteq> q \<longrightarrow> u \<notin> X"
  shows "sideInv q prim (if q0 = q then side @ [u] else side) X
           (enqueueConcurrentHookUpdateAndEagerlyBailout f q0 u l s)"
proof -
  let ?b = "enqueueConcurrentHookUpdateAndEagerlyBailout f q0 u l s"
  from inv have hs: "holds (updates s) (interleaved (queues s q)) side"
    and hp: "holds (updates s) (pending (queues s q)) prim"
    and out: "\<And>q'. q' \<noteq> q \<Longrightarrow> tailsOutside X (queues s q')"
    and reg: "side \<noteq> [] \<Longrightarrow> \<exists>qs. concurrentQueues s = Some qs \<and> q \<in> set qs"
    by (simp_all add: sideInv_def)
  show ?thesis
  proof (cases "q0 = q")
    case True
    have 1: "holds (updates ?b) (interleaved (queues ?b q)) (side @ [u])"
      using bailout_circular [of s q side u f l] hs u True
      by (simp add: bailout_queues holds_def)
    have tail_in: "interleaved (queues s q) = Some v \<Longrightarrow> v \<in> set side" for v
      using hs by (auto simp: holds_def circular_def)
    have "\<forall>v\<in>set prim. nxt (updates ?b v) = nxt (updates s v)"
    proof
      fix v assume v: "v \<in> set prim"
      with u have "v \<noteq> u" by auto
      moreover from v disj tail_in have "interleaved (queues s q0) \<noteq> Some v"
        using True by auto
      ultimately show "nxt (updates ?b v) = nxt (updates s v)"
        by (simp add: bailout_updates_other)
    qed
    then have 2: "holds (updates ?b) (pending (queues ?b q)) prim"
      using hp holds_agree [of prim "updates ?b" "updates s"] True
      by (simp add: bailout_queues)
    have 3: "\<forall>q'. q' \<noteq> q \<longrightarrow> tailsOutside X (queues ?b q')"
      using out True by (simp add: bailout_queues)
    have 4: "\<exists>qs. concurrentQueues ?b = Some qs \<and> q \<in> set qs"
    proof (cases "interleaved (queues s q)")
      case None
      with bailout_first [of s q f u l] True show ?thesis by simp
    next
      case (Some i)
      with tail_in have "side \<noteq> []" by auto
      with reg bailout_splice [of s q i f u l] Some True show ?thesis by simp
    qed
    from 1 2 3 4 True show ?thesis by (simp add: sideInv_def)
  next
    case False
    with uX have uX': "u \<notin> X" by simp
    from out False have o0: "tailsOutside X (queues s q0)" by simp
    have agree: "\<forall>v\<in>X. nxt (updates ?b v) = nxt (updates s v)"
    proof
      fix v assume v: "v \<in> X"
      with uX' have "v \<noteq> u" by auto
      moreover from v o0 have "interleaved (queues s q0) \<noteq> Some v"
        by (simp add: tailsOutside_def)
      ultimately show "nxt (updates ?b v) = nxt (updates s v)"
        by (simp add: bailout_updates_other)
    qed
    have qq: "queues ?b q = queues s q" using False by (simp add: bailout_queues)
    from agree sub have "\<forall>v\<in>set side. nxt (updates ?b v) = nxt (updates s v)" by auto
    then have 1: "holds (updates ?b) (interleaved (queues ?b q)) side"
      using hs holds_agree [of side "updates ?b" "updates s"] qq by simp
    from agree sub have "\<forall>v\<in>set prim. nxt (updates ?b v) = nxt (updates s v)" by auto
    then have 2: "holds (updates ?b) (pending (queues ?b q)) prim"
      using hp holds_agree [of prim "updates ?b" "updates s"] qq by simp
    have 3: "\<forall>q'. q' \<noteq> q \<longrightarrow> tailsOutside X (queues ?b q')"
    proof (intro allI impI)
      fix q' assume "q' \<noteq> q"
      with out have o: "tailsOutside X (queues s q')" by simp
      show "tailsOutside X (queues ?b q')"
      proof (cases "q' = q0")
        case True
        with o uX' show ?thesis by (auto simp: bailout_queues tailsOutside_def)
      next
        case False
        with o show ?thesis by (simp add: bailout_queues)
      qed
    qed
    have 4: "side \<noteq> [] \<longrightarrow> (\<exists>qs. concurrentQueues ?b = Some qs \<and> q \<in> set qs)"
      using reg bailout_registry by blast
    from 1 2 3 4 False show ?thesis by (simp add: sideInv_def)
  qed
qed

lemma sideInv_same:
  "updates t = updates b \<Longrightarrow> queues t = queues b \<Longrightarrow> concurrentQueues t = concurrentQueues b \<Longrightarrow>
     sideInv q prim side X t = sideInv q prim side X b"
  by (simp add: sideInv_def)

text \<open>A call returns when the chain of its fiber is finite, and then it has done to the
  records, the queues and the registry what the bailout variant does, and written no
  \<open>return\<close> field.\<close>

lemma runCall_spec:
  assumes "entryOf c \<noteq> HookUpdateAndEagerlyBailout \<longrightarrow> (\<exists>ps. returnPath (fibers s) (fiberOf c) ps)"
  shows "\<exists>t. runCall cfg c s = Some t
     \<and> updates t = updates (enqueueConcurrentHookUpdateAndEagerlyBailout (fiberOf c) (queueOf c) (recordOf c) (laneOf c) s)
     \<and> queues t = queues (enqueueConcurrentHookUpdateAndEagerlyBailout (fiberOf c) (queueOf c) (recordOf c) (laneOf c) s)
     \<and> concurrentQueues t = concurrentQueues (enqueueConcurrentHookUpdateAndEagerlyBailout (fiberOf c) (queueOf c) (recordOf c) (laneOf c) s)
     \<and> (\<forall>f. return (fibers t f) = return (fibers s f))"
proof (cases c)
  case (Call e f q u l)
  let ?b = "enqueueConcurrentHookUpdateAndEagerlyBailout f q u l s"
  show ?thesis
  proof (cases "e = HookUpdateAndEagerlyBailout")
    case True
    with Call show ?thesis using bailout_fibers [of f q u l s] by simp
  next
    case False
    with assms Call obtain ps where "returnPath (fibers s) f ps" by auto
    then have "returnPath (fibers ?b) f ps" using bailout_fibers [of f q u l s] by simp
    from markUpdateLaneFromFiberToRoot_spec [OF this, of cfg l] obtain r t where
      m: "markUpdateLaneFromFiberToRoot cfg f l ?b = Some (r, t)"
      and o: "updates t = updates ?b" "queues t = queues ?b"
        "concurrentQueues t = concurrentQueues ?b"
      and f: "\<And>x. fibers t x =
          (fibers ?b x)\<lparr>lanes :=
             (if x = f \<or> alternate (fibers ?b f) = Some x
              then mergeLanes (lanes (fibers ?b x)) l else lanes (fibers ?b x)),
            childLanes :=
             (if x \<in> set ps \<or> (\<exists>p\<in>set ps. alternate (fibers ?b p) = Some x)
              then mergeLanes (childLanes (fibers ?b x)) l else childLanes (fibers ?b x))\<rparr>"
      by blast
    have r: "\<forall>x. return (fibers t x) = return (fibers s x)"
      using bailout_fibers [of f q u l s] by (simp add: f)
    from False have "e = HookUpdate \<or> e = ClassUpdate" by (cases e) simp_all
    then have "runCall cfg c s = Some t"
      using m Call
      by (auto simp: enqueueConcurrentHookUpdate_eq enqueueConcurrentClassUpdate_eq)
    with o r Call show ?thesis by simp
  qed
qed

lemma recordsFor_Cons:
  "recordsFor q (c # cs) = (if queueOf c = q then recordOf c # recordsFor q cs else recordsFor q cs)"
  by (simp add: recordsFor_def)

lemma runCalls_sideInv:
  assumes "sideInv q prim side X s"
    and "set prim \<union> set side \<subseteq> X" and "set prim \<inter> set side = {}"
    and "distinct (recordsFor q cs)"
    and "set (recordsFor q cs) \<inter> (set prim \<union> set side) = {}"
    and "set (recordsFor q cs) \<subseteq> X"
    and "\<forall>c\<in>set cs. queueOf c \<noteq> q \<longrightarrow> recordOf c \<notin> X"
    and "\<forall>c\<in>set cs. entryOf c \<noteq> HookUpdateAndEagerlyBailout \<longrightarrow>
           (\<exists>ps. returnPath (fibers s) (fiberOf c) ps)"
  shows "\<exists>t. runCalls cfg cs s = Some t \<and> sideInv q prim (side @ recordsFor q cs) X t"
  using assms
proof (induction cs arbitrary: s side)
  case Nil
  then show ?case by (simp add: recordsFor_def)
next
  case (Cons c cs)
  let ?b = "enqueueConcurrentHookUpdateAndEagerlyBailout (fiberOf c) (queueOf c) (recordOf c) (laneOf c) s"
  let ?side = "if queueOf c = q then side @ [recordOf c] else side"
  from Cons.prems(8) have "entryOf c \<noteq> HookUpdateAndEagerlyBailout \<longrightarrow>
      (\<exists>ps. returnPath (fibers s) (fiberOf c) ps)" by simp
  from runCall_spec [OF this, of cfg] obtain t where
    run: "runCall cfg c s = Some t"
    and o: "updates t = updates ?b" "queues t = queues ?b" "concurrentQueues t = concurrentQueues ?b"
    and ret: "\<forall>f. return (fibers t f) = return (fibers s f)"
    by blast
  have u: "recordOf c \<notin> set prim \<union> set side"
  proof (cases "queueOf c = q")
    case True
    with Cons.prems(5) show ?thesis by (auto simp: recordsFor_Cons)
  next
    case False
    with Cons.prems(7) have "recordOf c \<notin> X" by simp
    with Cons.prems(2) show ?thesis by auto
  qed
  have uX: "queueOf c \<noteq> q \<longrightarrow> recordOf c \<notin> X" using Cons.prems(7) by simp
  from bailout_sideInv [OF Cons.prems(1,2,3) u uX]
  have "sideInv q prim ?side X ?b" .
  then have 1: "sideInv q prim ?side X t" using sideInv_same [OF o] by simp
  have 2: "set prim \<union> set ?side \<subseteq> X"
    using Cons.prems(2,6) by (auto simp: recordsFor_Cons)
  have 3: "set prim \<inter> set ?side = {}"
    using Cons.prems(3) u by auto
  have 4: "distinct (recordsFor q cs)"
    using Cons.prems(4) by (simp add: recordsFor_Cons split: if_splits)
  have 5: "set (recordsFor q cs) \<inter> (set prim \<union> set ?side) = {}"
    using Cons.prems(4,5) by (auto simp: recordsFor_Cons split: if_splits)
  have 6: "set (recordsFor q cs) \<subseteq> X"
    using Cons.prems(6) by (auto simp: recordsFor_Cons split: if_splits)
  have 7: "\<forall>c\<in>set cs. queueOf c \<noteq> q \<longrightarrow> recordOf c \<notin> X"
    using Cons.prems(7) by simp
  have 8: "\<forall>c\<in>set cs. entryOf c \<noteq> HookUpdateAndEagerlyBailout \<longrightarrow>
           (\<exists>ps. returnPath (fibers t) (fiberOf c) ps)"
    using Cons.prems(8) ret returnPath_agree [of "fibers t" "fibers s"] by simp
  from Cons.IH [OF 1 2 3 4 5 6 7 8] obtain t' where
    "runCalls cfg cs t = Some t'" "sideInv q prim (?side @ recordsFor q cs) X t'"
    by blast
  with run show ?case by (auto simp: recordsFor_Cons split: if_splits)
qed

lemma transferAll_unmerged_stable:
  assumes "interleaved (queues s q) = None"
    and "holds (updates s) (pending (queues s q)) xs"
    and "\<forall>q'\<in>set qs. q' \<noteq> q \<longrightarrow> tailsOutside (set xs) (queues s q')"
  shows "interleaved (queues (transferAll qs s) q) = None
       \<and> holds (updates (transferAll qs s)) (pending (queues (transferAll qs s) q)) xs"
  using assms
proof (induction qs arbitrary: s)
  case Nil
  then show ?case by simp
next
  case (Cons a qs)
  show ?case
  proof (cases "a = q")
    case True
    with Cons.prems(1) have "transferInterleaved a s = s"
      by (simp add: transferInterleaved_no_side)
    with Cons show ?thesis by simp
  next
    case False
    let ?s = "transferInterleaved a s"
    from Cons.prems(3) False have out: "tailsOutside (set xs) (queues s a)" by simp
    have q: "queues ?s q = queues s q"
      using False by (simp add: transferInterleaved_queues_other)
    have "\<forall>u\<in>set xs. nxt (updates ?s u) = nxt (updates s u)"
      using out by (simp add: transferInterleaved_updates_outside)
    then have c: "holds (updates ?s) (pending (queues ?s q)) xs"
      using Cons.prems(2) holds_agree [of xs "updates ?s" "updates s"] q by simp
    have f: "\<forall>q'\<in>set qs. q' \<noteq> q \<longrightarrow> tailsOutside (set xs) (queues ?s q')"
      using Cons.prems(3) by (simp add: transferInterleaved_tailsOutside)
    from Cons.IH [of ?s] q c f Cons.prems(1) show ?thesis by simp
  qed
qed

lemma finish_sideInv:
  assumes "sideInv q prim side (set prim \<union> set side) t" and "set prim \<inter> set side = {}"
  shows "interleaved (queues (finishQueueingConcurrentUpdates t) q) = None
       \<and> holds (updates (finishQueueingConcurrentUpdates t))
            (pending (queues (finishQueueingConcurrentUpdates t) q)) (prim @ side)"
proof -
  from assms(1) have hs: "holds (updates t) (interleaved (queues t q)) side"
    and hp: "holds (updates t) (pending (queues t q)) prim"
    and out: "\<And>q'. q' \<noteq> q \<Longrightarrow> tailsOutside (set prim \<union> set side) (queues t q')"
    and reg: "side \<noteq> [] \<Longrightarrow> \<exists>qs. concurrentQueues t = Some qs \<and> q \<in> set qs"
    by (simp_all add: sideInv_def)
  show ?thesis
  proof (cases "interleaved (queues t q)")
    case None
    with hs have e: "side = []" by (simp add: holds_def)
    show ?thesis
    proof (cases "concurrentQueues t")
      case N: None
      with None hp e show ?thesis by (simp add: finishQueueingConcurrentUpdates_def)
    next
      case (Some qs)
      have "\<forall>q'\<in>set qs. q' \<noteq> q \<longrightarrow> tailsOutside (set prim) (queues t q')"
        using out e by simp
      from transferAll_unmerged_stable [OF None hp this] Some e show ?thesis
        by (simp add: finishQueueingConcurrentUpdates_def)
    qed
  next
    case (Some li)
    with hs have c: "circular (updates t) li side" by (simp add: holds_def)
    then have "side \<noteq> []" by (simp add: circular_def)
    with reg obtain qs where qs: "concurrentQueues t = Some qs" "q \<in> set qs" by blast
    have "\<forall>q'\<in>set qs. q' \<noteq> q \<longrightarrow> tailsOutside (set (prim @ side)) (queues t q')"
      using out by simp
    from transferAll_merges [OF qs(2) Some c hp assms(2) this] qs(1) show ?thesis
      by (simp add: finishQueueingConcurrentUpdates_def holds_def)
  qed
qed

lemma map_filter_notin:
  assumes "distinct (map f xs)" and "x \<in> set xs" and "\<not> P x"
  shows "f x \<notin> set (map f (filter P xs))"
proof
  assume "f x \<in> set (map f (filter P xs))"
  then obtain y where y: "y \<in> set xs" "P y" "f y = f x" by auto
  from assms(1) have "inj_on f (set xs)" by (simp add: distinct_map)
  with y assms(2) have "y = x" by (auto dest: inj_onD)
  with y(2) assms(3) show False by simp
qed

text \<open>The enqueue entry points keep every queue with a non-empty side channel
  registered.\<close>

lemma bailout_allRegistered:
  assumes "allRegistered s"
  shows "allRegistered (enqueueConcurrentHookUpdateAndEagerlyBailout f q u l s)"
  unfolding allRegistered_def
proof (intro allI impI)
  let ?b = "enqueueConcurrentHookUpdateAndEagerlyBailout f q u l s"
  fix q'
  assume n: "interleaved (queues ?b q') \<noteq> None"
  show "\<exists>qs. concurrentQueues ?b = Some qs \<and> q' \<in> set qs"
  proof (cases "interleaved (queues s q')")
    case None
    with n have "q' = q" by (simp add: bailout_queues split: if_splits)
    moreover have "interleaved (queues s q) = None" using None \<open>q' = q\<close> by simp
    ultimately show ?thesis using bailout_first [of s q f u l] by simp
  next
    case (Some i)
    with assms obtain qs where "concurrentQueues s = Some qs" "q' \<in> set qs"
      by (auto simp: allRegistered_def)
    then show ?thesis by (rule bailout_registry)
  qed
qed

lemma runCall_allRegistered:
  assumes "allRegistered s" and "runCall cfg c s = Some t"
  shows "allRegistered t"
proof (cases c)
  case (Call e f q u l)
  let ?b = "enqueueConcurrentHookUpdateAndEagerlyBailout f q u l s"
  have b: "allRegistered ?b" using assms(1) by (rule bailout_allRegistered)
  show ?thesis
  proof (cases "e = HookUpdateAndEagerlyBailout")
    case True
    with Call assms(2) b show ?thesis by simp
  next
    case False
    then have "e = HookUpdate \<or> e = ClassUpdate" by (cases e) simp_all
    with Call assms(2) obtain r where "markUpdateLaneFromFiberToRoot cfg f l ?b = Some (r, t)"
      by (auto simp: enqueueConcurrentHookUpdate_eq enqueueConcurrentClassUpdate_eq)
    from markUpdateLaneFromFiberToRoot_frame [OF this] b show ?thesis
      by (simp add: allRegistered_def)
  qed
qed

lemma runCalls_allRegistered:
  "allRegistered s \<Longrightarrow> runCalls cfg cs s = Some t \<Longrightarrow> allRegistered t"
proof (induction cs arbitrary: s)
  case Nil
  then show ?case by simp
next
  case (Cons c cs)
  then show ?case
    by (auto split: option.splits dest: runCall_allRegistered)
qed

text \<open>
  Claim C2, amended. Let the side channel of the queue \<open>q\<close> be empty and its primary
  list read \<open>prim\<close> (no record when \<open>pending\<close> is \<open>null\<close>). Let \<open>cs\<close> be any sequence
  of enqueue calls, through any of the three entry points and on any queues, whose
  records are new: distinct, none of them in \<open>prim\<close>, and no other queue pointing to
  them or into \<open>prim\<close>; and let the \<open>return\<close> chains of the fibers be finite, so that the
  calls return. After the calls and one merge step the side channel of \<open>q\<close> is empty and
  its primary list is circular and reads, from the head \<open>pending.next\<close> to the tail: first
  the records that were in the primary list before, then the records appended to \<open>q\<close>,
  in the order of their calls.
\<close>

theorem finishQueueingConcurrentUpdates_order:
  assumes "interleaved (queues s q) = None"
    and "holds (updates s) (pending (queues s q)) prim"
    and "distinct (map recordOf cs)" and "set (map recordOf cs) \<inter> set prim = {}"
    and "\<forall>q'. q' \<noteq> q \<longrightarrow> tailsOutside (set prim \<union> set (map recordOf cs)) (queues s q')"
    and "\<forall>c\<in>set cs. entryOf c \<noteq> HookUpdateAndEagerlyBailout \<longrightarrow>
           (\<exists>ps. returnPath (fibers s) (fiberOf c) ps)"
  shows "\<exists>t. runCalls cfg cs s = Some t
     \<and> interleaved (queues (finishQueueingConcurrentUpdates t) q) = None
     \<and> holds (updates (finishQueueingConcurrentUpdates t))
          (pending (queues (finishQueueingConcurrentUpdates t) q)) (prim @ recordsFor q cs)"
proof -
  let ?X = "set prim \<union> set (recordsFor q cs)"
  have sub: "set (recordsFor q cs) \<subseteq> set (map recordOf cs)"
    by (auto simp: recordsFor_def)
  have "\<forall>q'. q' \<noteq> q \<longrightarrow> tailsOutside ?X (queues s q')"
    using assms(5) sub tailsOutside_mono [of ?X "set prim \<union> set (map recordOf cs)"] by blast
  with assms(1,2) have 1: "sideInv q prim [] ?X s" by (simp add: sideInv_def holds_def)
  have 4: "distinct (recordsFor q cs)"
    using assms(3) by (simp add: recordsFor_def distinct_map_filter)
  have 5: "set (recordsFor q cs) \<inter> (set prim \<union> set []) = {}"
    using assms(4) sub by auto
  have 7: "\<forall>c\<in>set cs. queueOf c \<noteq> q \<longrightarrow> recordOf c \<notin> ?X"
  proof (intro ballI impI)
    fix c assume c: "c \<in> set cs" "queueOf c \<noteq> q"
    with assms(3) have "recordOf c \<notin> set (recordsFor q cs)"
      unfolding recordsFor_def by (intro map_filter_notin) simp_all
    moreover from c(1) assms(4) have "recordOf c \<notin> set prim" by auto
    ultimately show "recordOf c \<notin> ?X" by simp
  qed
  from runCalls_sideInv [OF 1 _ _ 4 5 _ 7 assms(6), of cfg] obtain t where
    t: "runCalls cfg cs s = Some t" "sideInv q prim ([] @ recordsFor q cs) ?X t"
    by auto
  from t(2) 5 finish_sideInv [of q prim "recordsFor q cs" t] t(1) show ?thesis by auto
qed

lemmas merge_example_simps =
  primaryExample_def queue_example_simps finishQueueingConcurrentUpdates_def transferInterleaved_def
  holds_def circular_def recordsFor_def

theorem finishQueueingConcurrentUpdates_order_witness:
  "\<exists>t. runCalls exampleConfig
          [Call HookUpdate 1 0 2 1, Call HookUpdateAndEagerlyBailout 1 0 3 1] primaryExample = Some t
     \<and> holds (updates (finishQueueingConcurrentUpdates t))
          (pending (queues (finishQueueingConcurrentUpdates t) 0)) [1, 2, 3]"
proof -
  let ?cs = "[Call HookUpdate 1 0 2 1, Call HookUpdateAndEagerlyBailout 1 0 3 1]"
  have 1: "interleaved (queues primaryExample 0) = None" by (simp add: primaryExample_def)
  have 2: "holds (updates primaryExample) (pending (queues primaryExample 0)) [1]"
    by (simp add: merge_example_simps)
  have 3: "distinct (map recordOf ?cs)" by simp
  have 4: "set (map recordOf ?cs) \<inter> set [1] = {}" by simp
  have 5: "\<forall>q'. q' \<noteq> 0 \<longrightarrow>
             tailsOutside (set [1] \<union> set (map recordOf ?cs)) (queues primaryExample q')"
    by (simp add: primaryExample_def tailsOutside_def)
  have "returnPath (fibers primaryExample) 1 [2]"
    by (simp add: primaryExample_def propagation_example_simps)
  then have "\<exists>ps. returnPath (fibers primaryExample) 1 ps" by (rule exI)
  then have 6: "\<forall>c\<in>set ?cs. entryOf c \<noteq> HookUpdateAndEagerlyBailout \<longrightarrow>
           (\<exists>ps. returnPath (fibers primaryExample) (fiberOf c) ps)"
    by simp
  have 7: "recordsFor 0 ?cs = [2, 3]" by (simp add: recordsFor_def)
  from finishQueueingConcurrentUpdates_order [OF 1 2 3 4 5 6, of exampleConfig] obtain t where
    r: "runCalls exampleConfig ?cs primaryExample = Some t"
    and h: "holds (updates (finishQueueingConcurrentUpdates t))
          (pending (queues (finishQueueingConcurrentUpdates t) 0)) ([1] @ recordsFor 0 ?cs)"
    by blast
  from h have "holds (updates (finishQueueingConcurrentUpdates t))
          (pending (queues (finishQueueingConcurrentUpdates t) 0)) [1, 2, 3]"
    unfolding 7 by simp
  with r show ?thesis by blast
qed

text \<open>
  The claim as stated, the appended records first and the former primary records after
  them, fails: with the record 1 in the primary list of queue 0 and the record 2
  appended, the merged list has the head 1 and the tail 2, and it does not read \<open>[2, 1]\<close>.
\<close>

theorem finishQueueingConcurrentUpdates_order_counterexample:
  "holds (updates primaryExample) (pending (queues primaryExample 0)) [1]
   \<and> interleaved (queues primaryExample 0) = None
   \<and> runCalls exampleConfig [Call HookUpdateAndEagerlyBailout 1 0 2 1] primaryExample =
       Some (enqueueConcurrentHookUpdateAndEagerlyBailout 1 0 2 1 primaryExample)
   \<and> recordsFor 0 [Call HookUpdateAndEagerlyBailout 1 0 2 1] = [2]
   \<and> \<not> holds
        (updates (finishQueueingConcurrentUpdates
           (enqueueConcurrentHookUpdateAndEagerlyBailout 1 0 2 1 primaryExample)))
        (pending (queues (finishQueueingConcurrentUpdates
           (enqueueConcurrentHookUpdateAndEagerlyBailout 1 0 2 1 primaryExample)) 0))
        ([2] @ [1])
   \<and> pending (queues (finishQueueingConcurrentUpdates
           (enqueueConcurrentHookUpdateAndEagerlyBailout 1 0 2 1 primaryExample)) 0) = Some 2
   \<and> nxt (updates (finishQueueingConcurrentUpdates
           (enqueueConcurrentHookUpdateAndEagerlyBailout 1 0 2 1 primaryExample)) 2) = Some 1
   \<and> nxt (updates (finishQueueingConcurrentUpdates
           (enqueueConcurrentHookUpdateAndEagerlyBailout 1 0 2 1 primaryExample)) 1) = Some 2"
  by (simp add: merge_example_simps)

section \<open>Reading and restoring the host context\<close>

lemma requiredContext_simps [simp]:
  "requiredContext NO_CONTEXT = Inl noHostContextError"
  "requiredContext (Val v) = Inr v"
  by (simp_all add: requiredContext_def)

lemma pushHostContainer_cursors:
  "current (snd (pushHostContainer cfg fiber r s)) rootInstanceStackCursor = Val r
   \<and> current (snd (pushHostContainer cfg fiber r s)) contextFiberStackCursor = Val fiber
   \<and> current (snd (pushHostContainer cfg fiber r s)) contextStackCursor =
       (case getRootHostContext cfg r of Inl e \<Rightarrow> NO_CONTEXT | Inr c \<Rightarrow> Val c)
   \<and> fst (pushHostContainer cfg fiber r s) =
       (case getRootHostContext cfg r of Inl e \<Rightarrow> Inl e | Inr c \<Rightarrow> Inr ())"
  by (simp add: pushHostContainer_def push_def pop_def Let_def split: sum.splits)

text \<open>
  Claim C8. While a cursor still holds the sentinel \<open>NO_CONTEXT\<close>, as both do before
  any push, \<open>getHostContext\<close> and \<open>getRootHostContainer\<close> raise the error of
  \<open>requiredContext\<close> and return no default. Once a cursor holds a value the read
  returns that value: after a push of \<open>v\<close> on the cursor, and after \<open>pushHostContainer\<close>,
  which establishes the container and, when the host configuration returns the root
  context \<open>c\<close>, the context \<open>c\<close>.
\<close>

theorem hostContext_required:
  "(current s contextStackCursor = NO_CONTEXT \<longrightarrow> getHostContext s = Inl noHostContextError)
   \<and> (current s rootInstanceStackCursor = NO_CONTEXT \<longrightarrow>
        getRootHostContainer s = Inl noHostContextError)
   \<and> getHostContext (initialHostState :: 'v hostState) = Inl noHostContextError
   \<and> getRootHostContainer (initialHostState :: 'v hostState) = Inl noHostContextError
   \<and> (\<forall>v. current s contextStackCursor = Val v \<longrightarrow> getHostContext s = Inr v)
   \<and> (\<forall>v. current s rootInstanceStackCursor = Val v \<longrightarrow> getRootHostContainer s = Inr v)
   \<and> getHostContext (push contextStackCursor (Val v) fiber s) = Inr v
   \<and> getRootHostContainer (push rootInstanceStackCursor (Val v) fiber s) = Inr v
   \<and> getRootHostContainer (snd (pushHostContainer cfg fiber r s)) = Inr r
   \<and> (\<forall>c. getRootHostContext cfg r = Inr c \<longrightarrow>
         fst (pushHostContainer cfg fiber r s) = Inr ()
       \<and> getHostContext (snd (pushHostContainer cfg fiber r s)) = Inr c)"
  using pushHostContainer_cursors [of cfg fiber r s]
  by (simp add: getHostContext_def getRootHostContainer_def initialHostState_def push_def)

theorem hostContext_required_witness:
  "getHostContext (initialHostState :: nat hostState) = Inl noHostContextError
   \<and> getHostContext (snd (pushHostContainer exampleHostConfig 0 5 initialHostState)) = Inr 10
   \<and> getRootHostContainer (snd (pushHostContainer exampleHostConfig 0 5 initialHostState)) = Inr 5"
proof -
  have "getRootHostContext exampleHostConfig 5 = Inr 10" by (simp add: exampleHostConfig_def)
  with hostContext_required [where s = "initialHostState :: nat hostState" and cfg = exampleHostConfig
              and fiber = 0 and r = 5]
  show ?thesis by blast
qed

lemma popHostContext_other:
  "current s contextFiberStackCursor \<noteq> Val fiber \<Longrightarrow> popHostContext fiber s = s"
  by (simp add: popHostContext_def)

lemma push_pop_pair:
  "pop contextFiberStackCursor f (pop contextStackCursor f
     (push contextStackCursor v f (push contextFiberStackCursor w f s))) = s"
  by (cases s) (auto simp: push_def pop_def fun_eq_iff)

lemma pushHostContext_state:
  "snd (pushHostContext cfg fiber s) = s
   \<or> (\<exists>next. snd (pushHostContext cfg fiber s) =
        push contextStackCursor (Val next) fiber (push contextFiberStackCursor (Val fiber) fiber s))"
  by (auto simp add: pushHostContext_def Let_def split: sum.splits)

text \<open>
  Claim C10, amended. Let the provider-tracking cursor not hold the node already.
  Then \<open>pushHostContext\<close> followed by \<open>popHostContext\<close> for the same node restores the
  whole stack state, both cursors included. When the computed child context equals the
  current context the push changes nothing and the pop for the node changes nothing.
  When they differ the push sets the context and records the node in the
  provider-tracking cursor, and the pop for any other node changes nothing.
\<close>

theorem pushHostContext_popHostContext_restores:
  assumes "current s contextFiberStackCursor \<noteq> Val fiber"
  shows "popHostContext fiber (snd (pushHostContext cfg fiber s)) = s
     \<and> (\<forall>root ctx. current s rootInstanceStackCursor = Val root \<longrightarrow>
           current s contextStackCursor = Val ctx \<longrightarrow>
           getChildHostContext cfg ctx (fiberType cfg fiber) root = Inr ctx \<longrightarrow>
             pushHostContext cfg fiber s = (Inr (), s) \<and> popHostContext fiber s = s)
     \<and> (\<forall>root ctx next. current s rootInstanceStackCursor = Val root \<longrightarrow>
           current s contextStackCursor = Val ctx \<longrightarrow>
           getChildHostContext cfg ctx (fiberType cfg fiber) root = Inr next \<longrightarrow> next \<noteq> ctx \<longrightarrow>
             fst (pushHostContext cfg fiber s) = Inr ()
           \<and> current (snd (pushHostContext cfg fiber s)) contextFiberStackCursor = Val fiber
           \<and> current (snd (pushHostContext cfg fiber s)) contextStackCursor = Val next
           \<and> (\<forall>other. other \<noteq> fiber \<longrightarrow>
                 popHostContext other (snd (pushHostContext cfg fiber s))
                   = snd (pushHostContext cfg fiber s)))"
proof (intro conjI allI impI)
  show "popHostContext fiber (snd (pushHostContext cfg fiber s)) = s"
    using pushHostContext_state [of cfg fiber s]
  proof
    assume "snd (pushHostContext cfg fiber s) = s"
    with assms show ?thesis by (simp add: popHostContext_other)
  next
    assume "\<exists>next. snd (pushHostContext cfg fiber s) =
        push contextStackCursor (Val next) fiber (push contextFiberStackCursor (Val fiber) fiber s)"
    then obtain "next" where p: "snd (pushHostContext cfg fiber s) =
        push contextStackCursor (Val next) fiber (push contextFiberStackCursor (Val fiber) fiber s)"
      by blast
    have "current (push contextStackCursor (Val next) fiber
        (push contextFiberStackCursor (Val fiber) fiber s)) contextFiberStackCursor = Val fiber"
      by (simp add: push_def)
    then have "popHostContext fiber (push contextStackCursor (Val next) fiber
        (push contextFiberStackCursor (Val fiber) fiber s)) = s"
      unfolding popHostContext_def by (simp only: push_pop_pair if_False simp_thms)
    with p show ?thesis by simp
  qed
next
  fix root ctx
  assume "current s rootInstanceStackCursor = Val root" "current s contextStackCursor = Val ctx"
    "getChildHostContext cfg ctx (fiberType cfg fiber) root = Inr ctx"
  then show "pushHostContext cfg fiber s = (Inr (), s)"
    by (simp add: pushHostContext_def)
  from assms show "popHostContext fiber s = s" by (rule popHostContext_other)
next
  fix root ctx "next"
  assume a: "current s rootInstanceStackCursor = Val root" "current s contextStackCursor = Val ctx"
    "getChildHostContext cfg ctx (fiberType cfg fiber) root = Inr next" "next \<noteq> ctx"
  then have p: "pushHostContext cfg fiber s = (Inr (),
        push contextStackCursor (Val next) fiber (push contextFiberStackCursor (Val fiber) fiber s))"
    by (simp add: pushHostContext_def Let_def)
  then show "fst (pushHostContext cfg fiber s) = Inr ()" by simp
  from p show f: "current (snd (pushHostContext cfg fiber s)) contextFiberStackCursor = Val fiber"
    by (simp add: push_def)
  from p show "current (snd (pushHostContext cfg fiber s)) contextStackCursor = Val next"
    by (simp add: push_def)
  fix other :: 'a
  assume "other \<noteq> fiber"
  with f show "popHostContext other (snd (pushHostContext cfg fiber s))
                   = snd (pushHostContext cfg fiber s)"
    by (simp add: popHostContext_def)
qed

lemmas host_example_simps =
  providerExample_def exampleHostConfig_def initialHostState_def pushHostContainer_def
  pushHostContext_def popHostContext_def push_def pop_def Let_def

theorem pushHostContext_popHostContext_restores_witness:
  "popHostContext 2 (snd (pushHostContext exampleHostConfig 2 providerExample)) = providerExample
   \<and> current (snd (pushHostContext exampleHostConfig 2 providerExample)) contextStackCursor = Val 22"
proof -
  have h: "current providerExample contextFiberStackCursor \<noteq> Val 2"
    by (simp add: host_example_simps)
  have "current providerExample rootInstanceStackCursor = Val 5"
    "current providerExample contextStackCursor = Val 21"
    "getChildHostContext exampleHostConfig 21 (fiberType exampleHostConfig 2) 5 = Inr 22"
    "(22::nat) \<noteq> 21"
    by (simp_all add: host_example_simps)
  with pushHostContext_popHostContext_restores [OF h, of exampleHostConfig] show ?thesis by blast
qed

text \<open>
  The claim as stated, for every stack state, fails where the provider-tracking cursor
  holds the node already: the push is skipped, the child context being the current one,
  yet the pop acts and restores the values recorded by the earlier push, so the context
  cursor goes from 21 to 10 and the provider-tracking cursor from 1 to 0.
\<close>

theorem pushHostContext_popHostContext_counterexample:
  "current providerExample contextStackCursor = Val 21
   \<and> current providerExample contextFiberStackCursor = Val 1
   \<and> pushHostContext exampleHostConfig 1 providerExample = (Inr (), providerExample)
   \<and> current (popHostContext 1 (snd (pushHostContext exampleHostConfig 1 providerExample)))
        contextStackCursor = Val 10
   \<and> current (popHostContext 1 (snd (pushHostContext exampleHostConfig 1 providerExample)))
        contextFiberStackCursor = Val 0"
  by (simp add: host_example_simps)

section \<open>Batching\<close>

lemma finishEventHandler_runs:
  assumes flush: "\<forall>t. \<not> isInsideEventHandler t \<longrightarrow>
        \<not> isInsideEventHandler (snd (flushSyncImpl env t))
      \<and> finishEventHandlerRuns (snd (flushSyncImpl env t)) = finishEventHandlerRuns t"
    and restore: "\<forall>t. \<not> isInsideEventHandler t \<longrightarrow>
        \<not> isInsideEventHandler (snd (restoreStateIfNeeded env t))
      \<and> finishEventHandlerRuns (snd (restoreStateIfNeeded env t)) = finishEventHandlerRuns t"
    and out: "\<not> isInsideEventHandler s"
  shows "\<not> isInsideEventHandler (snd (finishEventHandler env s))
       \<and> finishEventHandlerRuns (snd (finishEventHandler env s)) = Suc (finishEventHandlerRuns s)"
proof -
  let ?s0 = "s\<lparr>finishEventHandlerRuns := Suc (finishEventHandlerRuns s)\<rparr>"
  have o0: "\<not> isInsideEventHandler ?s0" using out by simp
  show ?thesis
  proof (cases "needsStateRestore env ?s0")
    case False
    then show ?thesis using out by (simp add: finishEventHandler_def Let_def)
  next
    case True
    obtain r1 s1 where f: "flushSyncImpl env ?s0 = (r1, s1)" by (cases "flushSyncImpl env ?s0")
    from flush [rule_format, OF o0] f have s1: "\<not> isInsideEventHandler s1"
      "finishEventHandlerRuns s1 = Suc (finishEventHandlerRuns s)"
      by simp_all
    show ?thesis
    proof (cases r1)
      case (Inl e)
      with True f s1 show ?thesis by (simp add: finishEventHandler_def Let_def)
    next
      case (Inr v)
      obtain r2 s2 where r: "restoreStateIfNeeded env s1 = (r2, s2)"
        by (cases "restoreStateIfNeeded env s1")
      from restore [rule_format, OF s1(1)] s1(2) r have "\<not> isInsideEventHandler s2"
        "finishEventHandlerRuns s2 = Suc (finishEventHandlerRuns s)"
        by simp_all
      with True f r Inr show ?thesis
        by (cases r2) (simp_all add: finishEventHandler_def Let_def)
    qed
  qed
qed

text \<open>
  Claim C6. A call made inside a batch is the operation itself, run inline: no flag
  is written and no finalize step runs. An outermost call runs the operation with the
  flag set, then clears the flag and runs the finalize step on the state the operation
  left, whether the operation returned or threw; the outcome of the operation stands
  unless the finalize step throws. Where the operation runs no finalize step of its
  own, as a nested call does not, and the functions the finalize step calls start no
  batch, the flag is clear afterwards and the finalize step has run exactly once.
\<close>

theorem batchedUpdates_finalizes_once:
  assumes op: "finishEventHandlerRuns
        (snd (batchedUpdatesImpl env fn a b (s\<lparr>isInsideEventHandler := True\<rparr>)))
        = finishEventHandlerRuns s"
    and flush: "\<forall>t. \<not> isInsideEventHandler t \<longrightarrow>
        \<not> isInsideEventHandler (snd (flushSyncImpl env t))
      \<and> finishEventHandlerRuns (snd (flushSyncImpl env t)) = finishEventHandlerRuns t"
    and restore: "\<forall>t. \<not> isInsideEventHandler t \<longrightarrow>
        \<not> isInsideEventHandler (snd (restoreStateIfNeeded env t))
      \<and> finishEventHandlerRuns (snd (restoreStateIfNeeded env t)) = finishEventHandlerRuns t"
  shows "(isInsideEventHandler s \<longrightarrow> batchedUpdates env fn a b s = fn a b s)
     \<and> (\<not> isInsideEventHandler s \<longrightarrow>
          (\<exists>r1 s1 r2 s2.
              batchedUpdatesImpl env fn a b (s\<lparr>isInsideEventHandler := True\<rparr>) = (r1, s1)
            \<and> finishEventHandler env (s1\<lparr>isInsideEventHandler := False\<rparr>) = (r2, s2)
            \<and> batchedUpdates env fn a b s =
                 (case r2 of Inl e \<Rightarrow> Inl e | Inr v \<Rightarrow> r1, s2))
        \<and> \<not> isInsideEventHandler (snd (batchedUpdates env fn a b s))
        \<and> finishEventHandlerRuns (snd (batchedUpdates env fn a b s))
            = Suc (finishEventHandlerRuns s))"
proof (intro conjI impI)
  assume "isInsideEventHandler s"
  then show "batchedUpdates env fn a b s = fn a b s" by (simp add: batchedUpdates_def)
next
  assume out: "\<not> isInsideEventHandler s"
  obtain r1 s1 where i: "batchedUpdatesImpl env fn a b (s\<lparr>isInsideEventHandler := True\<rparr>) = (r1, s1)"
    by (cases "batchedUpdatesImpl env fn a b (s\<lparr>isInsideEventHandler := True\<rparr>)")
  obtain r2 s2 where f: "finishEventHandler env (s1\<lparr>isInsideEventHandler := False\<rparr>) = (r2, s2)"
    by (cases "finishEventHandler env (s1\<lparr>isInsideEventHandler := False\<rparr>)")
  have b: "batchedUpdates env fn a b s = (case r2 of Inl e \<Rightarrow> Inl e | Inr v \<Rightarrow> r1, s2)"
    using out i f by (simp add: batchedUpdates_def Let_def split: sum.splits)
  from i f b show "\<exists>r1 s1 r2 s2.
              batchedUpdatesImpl env fn a b (s\<lparr>isInsideEventHandler := True\<rparr>) = (r1, s1)
            \<and> finishEventHandler env (s1\<lparr>isInsideEventHandler := False\<rparr>) = (r2, s2)
            \<and> batchedUpdates env fn a b s =
                 (case r2 of Inl e \<Rightarrow> Inl e | Inr v \<Rightarrow> r1, s2)"
    by blast
  have "\<not> isInsideEventHandler (s1\<lparr>isInsideEventHandler := False\<rparr>)" by simp
  from finishEventHandler_runs [OF flush restore this] f op i
  have "\<not> isInsideEventHandler s2" "finishEventHandlerRuns s2 = Suc (finishEventHandlerRuns s)"
    by simp_all
  with b show "\<not> isInsideEventHandler (snd (batchedUpdates env fn a b s))"
    "finishEventHandlerRuns (snd (batchedUpdates env fn a b s)) = Suc (finishEventHandlerRuns s)"
    by simp_all
qed

lemmas batching_example_simps =
  exampleBatching_def idleBatchState_def throwingOp_def nestedOp_def
  defaultBatchedUpdatesImpl_def defaultFlushSyncImpl_def

theorem batchedUpdates_finalizes_once_witness:
  "nestedOp (Arg 1) Undefined (idleBatchState\<lparr>isInsideEventHandler := True\<rparr>)
     = throwingOp (Arg 1) Undefined (idleBatchState\<lparr>isInsideEventHandler := True\<rparr>)
   \<and> fst (batchedUpdates exampleBatching nestedOp (Arg 1) (Arg 2) idleBatchState) = Inl (Error ''boom'')
   \<and> \<not> isInsideEventHandler (snd (batchedUpdates exampleBatching nestedOp (Arg 1) (Arg 2) idleBatchState))
   \<and> finishEventHandlerRuns (snd (batchedUpdates exampleBatching nestedOp (Arg 1) (Arg 2) idleBatchState)) = 1"
proof -
  have flush: "\<forall>t. \<not> isInsideEventHandler t \<longrightarrow>
        \<not> isInsideEventHandler (snd (flushSyncImpl exampleBatching t))
      \<and> finishEventHandlerRuns (snd (flushSyncImpl exampleBatching t)) = finishEventHandlerRuns t"
    by (simp add: batching_example_simps)
  have restore: "\<forall>t. \<not> isInsideEventHandler t \<longrightarrow>
        \<not> isInsideEventHandler (snd (restoreStateIfNeeded exampleBatching t))
      \<and> finishEventHandlerRuns (snd (restoreStateIfNeeded exampleBatching t)) = finishEventHandlerRuns t"
    by (simp add: batching_example_simps)
  have n: "nestedOp (Arg 1) Undefined (idleBatchState\<lparr>isInsideEventHandler := True\<rparr>)
     = throwingOp (Arg 1) Undefined (idleBatchState\<lparr>isInsideEventHandler := True\<rparr>)"
    by (simp add: nestedOp_def batchedUpdates_def)
  have op: "finishEventHandlerRuns
        (snd (batchedUpdatesImpl exampleBatching nestedOp (Arg 1) (Arg 2)
                (idleBatchState\<lparr>isInsideEventHandler := True\<rparr>)))
        = finishEventHandlerRuns idleBatchState"
    by (simp add: batching_example_simps batchedUpdates_def)
  have out: "\<not> isInsideEventHandler idleBatchState" by (simp add: idleBatchState_def)
  have r0: "finishEventHandlerRuns idleBatchState = 0" by (simp add: idleBatchState_def)
  have thrown: "fst (batchedUpdates exampleBatching nestedOp (Arg 1) (Arg 2) idleBatchState)
      = Inl (Error ''boom'')"
    by (simp add: batching_example_simps batchedUpdates_def finishEventHandler_def Let_def)
  from batchedUpdates_finalizes_once [OF op flush restore] out r0
  have "\<not> isInsideEventHandler (snd (batchedUpdates exampleBatching nestedOp (Arg 1) (Arg 2) idleBatchState))"
    "finishEventHandlerRuns (snd (batchedUpdates exampleBatching nestedOp (Arg 1) (Arg 2) idleBatchState)) = 1"
    by simp_all
  with n thrown show ?thesis by simp
qed

end
